theory Spec2Isabelle
  imports Complex_Main
begin

section \<open>Values shared by the components\<close>

text \<open>
  Upstream payloads and cached values are JSON documents. Python's \<^verbatim>\<open>None\<close> is
  \<open>JNull\<close>, a \<^verbatim>\<open>dict\<close> is an association list with distinct keys, in insertion
  order. Floating point numbers are left out of the document type.
\<close>

datatype json =
    JNull
  | JBool bool
  | JInt int
  | JStr string
  | JList "json list"
  | JObj "(string \<times> json) list"

text \<open>Python truthiness (\<^verbatim>\<open>if x:\<close>, \<^verbatim>\<open>x and y\<close>) of a JSON value.\<close>

fun truthy :: "json \<Rightarrow> bool" where
  "truthy JNull = False"
| "truthy (JBool b) = b"
| "truthy (JInt n) = (n \<noteq> 0)"
| "truthy (JStr s) = (s \<noteq> [])"
| "truthy (JList xs) = (xs \<noteq> [])"
| "truthy (JObj kvs) = (kvs \<noteq> [])"

text \<open>
  The exceptions the modelled code can raise. A function that may raise returns
  \<open>exn + 'a\<close>, with \<open>Inl\<close> for the exception.
\<close>

datatype exn = CacheError | RedisError | TypeError | DataError | IntegrityError

section \<open>Circuit breaker (services/fetcher.py)\<close>

text \<open>
  \<^verbatim>\<open>_circuit: dict[str, dict]\<close> maps a URL to \<^verbatim>\<open>{"failures": n, "opened_at": t}\<close>.
  The readings of \<^verbatim>\<open>time.monotonic()\<close> are passed in as \<open>now\<close>, in seconds.
\<close>

record cstate =
  failures :: int
  opened_at :: real

type_synonym circuit = "string \<rightharpoonup> cstate"

definition FAILURE_THRESHOLD :: int where
  "FAILURE_THRESHOLD = 3"

definition RECOVERY_SECONDS :: real where
  "RECOVERY_SECONDS = 60"

text \<open>
  \<^verbatim>\<open>_is_open\<close>: the answer and the breaker state after the call (the half-open branch
  writes \<^verbatim>\<open>state["failures"] = FAILURE_THRESHOLD - 1\<close>). A state dict is never empty,
  so \<^verbatim>\<open>if not state\<close> is the test for a missing entry.
\<close>

definition is_open :: "real \<Rightarrow> string \<Rightarrow> circuit \<Rightarrow> bool \<times> circuit" where
  "is_open now url c =
     (case c url of
        None \<Rightarrow> (False, c)
      | Some state \<Rightarrow>
          if failures state \<ge> FAILURE_THRESHOLD then
            (if now - opened_at state < RECOVERY_SECONDS then (True, c)
             else (False, c(url \<mapsto> state\<lparr>failures := FAILURE_THRESHOLD - 1\<rparr>)))
          else (False, c))"

text \<open>\<^verbatim>\<open>_record_failure\<close>: \<^verbatim>\<open>setdefault\<close>, increment, stamp on reaching the threshold.\<close>

definition record_failure :: "real \<Rightarrow> string \<Rightarrow> circuit \<Rightarrow> circuit" where
  "record_failure now url c =
     (let state = (case c url of None \<Rightarrow> \<lparr>failures = 0, opened_at = 0\<rparr> | Some s \<Rightarrow> s);
          state1 = state\<lparr>failures := failures state + 1\<rparr>;
          state2 = (if failures state1 \<ge> FAILURE_THRESHOLD
                    then state1\<lparr>opened_at := now\<rparr> else state1)
      in c(url \<mapsto> state2))"

text \<open>\<^verbatim>\<open>_record_success\<close>: \<^verbatim>\<open>_circuit.pop(url, None)\<close>.\<close>

definition record_success :: "string \<Rightarrow> circuit \<Rightarrow> circuit" where
  "record_success url c = c(url := None)"

section \<open>Stale-while-revalidate cache (cache.py)\<close>

text \<open>
  The values handed to \<^verbatim>\<open>cache_set\<close> are Python values (\<^verbatim>\<open>value: Any\<close>): the
  JSON-native ones, and \<open>PObject\<close> for an object that \<^verbatim>\<open>json\<close> cannot encode by
  itself, carrying its \<^verbatim>\<open>str()\<close>. The \<^verbatim>\<open>datetime\<close> fields of the
  \<^verbatim>\<open>model_dump()\<close> dicts that the program caches are such objects. A float is
  represented by the number it stands for; keys of dicts are strings, as in every
  \<^verbatim>\<open>model_dump()\<close>. NaN, the infinities, tuples and dicts with other keys are left
  out.
\<close>

datatype pyval =
    PNone
  | PBool bool
  | PInt int
  | PFloat real
  | PStr string
  | PList "pyval list"
  | PDict "(string \<times> pyval) list"
  | PObject string

text \<open>A JSON text, by its abstract syntax: what the store holds under a key.\<close>

datatype jdoc =
    DNull
  | DBool bool
  | DInt int
  | DFloat real
  | DStr string
  | DList "jdoc list"
  | DObj "(string \<times> jdoc) list"

text \<open>
  \<^verbatim>\<open>json.dumps(value, default=str)\<close>: an object that is not JSON-native is written as
  the string \<^verbatim>\<open>str(obj)\<close>, at any depth.
\<close>

primrec json_dumps :: "pyval \<Rightarrow> jdoc" where
  "json_dumps PNone = DNull"
| "json_dumps (PBool b) = DBool b"
| "json_dumps (PInt n) = DInt n"
| "json_dumps (PFloat x) = DFloat x"
| "json_dumps (PStr s) = DStr s"
| "json_dumps (PList xs) = DList (map json_dumps xs)"
| "json_dumps (PDict kvs) = DObj (map (map_prod id json_dumps) kvs)"
| "json_dumps (PObject s) = DStr s"

text \<open>\<^verbatim>\<open>json.loads\<close>\<close>

primrec json_loads :: "jdoc \<Rightarrow> pyval" where
  "json_loads DNull = PNone"
| "json_loads (DBool b) = PBool b"
| "json_loads (DInt n) = PInt n"
| "json_loads (DFloat x) = PFloat x"
| "json_loads (DStr s) = PStr s"
| "json_loads (DList xs) = PList (map json_loads xs)"
| "json_loads (DObj kvs) = PDict (map (map_prod id json_loads) kvs)"

text \<open>
  The key-value store holds, per key, a text and the instant at which the key expires;
  a key is visible strictly before that instant. The sentinel text \<^verbatim>\<open>"1"\<close> is the
  document \<open>DInt 1\<close>. \<open>now\<close> is the store's clock, in seconds of Unix time.
\<close>

type_synonym redis = "(string \<times> (jdoc \<times> real)) list"

fun kv_put :: "string \<Rightarrow> (jdoc \<times> real) \<Rightarrow> redis \<Rightarrow> redis" where
  "kv_put k e [] = [(k, e)]"
| "kv_put k e ((k', e') # s) = (if k' = k then (k, e) # s else (k', e') # kv_put k e s)"

fun kv_del :: "string \<Rightarrow> redis \<Rightarrow> redis" where
  "kv_del k [] = []"
| "kv_del k ((k', e') # s) = (if k' = k then kv_del k s else (k', e') # kv_del k s)"

definition redis_get :: "real \<Rightarrow> redis \<Rightarrow> string \<Rightarrow> jdoc option" where
  "redis_get now s k =
     (case map_of s k of
        None \<Rightarrow> None
      | Some (v, expires) \<Rightarrow> if now < expires then Some v else None)"

definition redis_exists :: "real \<Rightarrow> redis \<Rightarrow> string \<Rightarrow> bool" where
  "redis_exists now s k = (redis_get now s k \<noteq> None)"

text \<open>
  \<^verbatim>\<open>SETEX key seconds value\<close>. The server refuses an expiry that is not positive, and
  one that, in milliseconds and added to its clock, does not fit 64 bits
  (\<^verbatim>\<open>ERR invalid expire time\<close>, a \<^verbatim>\<open>ResponseError\<close>); a refused command changes
  nothing.
\<close>

definition expire_ok :: "real \<Rightarrow> int \<Rightarrow> bool" where
  "expire_ok now secs =
     (0 < secs \<and> secs * 1000 \<le> 9223372036854775807 - \<lfloor>now * 1000\<rfloor>)"

definition redis_setex :: "real \<Rightarrow> string \<Rightarrow> int \<Rightarrow> jdoc \<Rightarrow> redis \<Rightarrow> redis" where
  "redis_setex now k ttl v s =
     (if expire_ok now ttl then kv_put k (v, now + real_of_int ttl) s else s)"

text \<open>
  The connection pool: \<^verbatim>\<open>_pool is None\<close> before \<^verbatim>\<open>init_redis_pool\<close>; once
  initialised the store is either unreachable (every command raises a
  \<^verbatim>\<open>RedisError\<close>) or reachable with its contents.
\<close>

datatype pool = NoPool | Unreachable | Reachable redis

text \<open>\<^verbatim>\<open>get_redis\<close> raises \<^verbatim>\<open>CacheError\<close> when the pool was never initialised.\<close>

definition get_redis :: "pool \<Rightarrow> exn + pool" where
  "get_redis p = (case p of NoPool \<Rightarrow> Inl CacheError | _ \<Rightarrow> Inr p)"

text \<open>Running commands on a client: a \<^verbatim>\<open>RedisError\<close> when the store is unreachable.\<close>

definition with_store :: "pool \<Rightarrow> (redis \<Rightarrow> 'a) \<Rightarrow> exn + 'a" where
  "with_store r f = (case r of Reachable s \<Rightarrow> Inr (f s) | _ \<Rightarrow> Inl RedisError)"

text \<open>
  \<^verbatim>\<open>try: ... except RedisError: <fallback>\<close>: a \<^verbatim>\<open>RedisError\<close> becomes the fallback,
  every other exception goes on to the caller.
\<close>

definition except_RedisError :: "exn + 'a \<Rightarrow> 'a \<Rightarrow> exn + 'a" where
  "except_RedisError body fallback =
     (case body of
        Inl e \<Rightarrow> if e = RedisError then Inr fallback else Inl e
      | Inr x \<Rightarrow> Inr x)"

definition try_redis :: "pool \<Rightarrow> (redis \<Rightarrow> 'a) \<Rightarrow> exn + 'a" where
  "try_redis p f = (case get_redis p of Inl e \<Rightarrow> Inl e | Inr r \<Rightarrow> with_store r f)"

text \<open>
  \<^verbatim>\<open>cache_get\<close>: one pipeline reads the value and the \<^verbatim>\<open>:fresh\<close> sentinel. The
  result is \<^verbatim>\<open>(value, is_stale)\<close>: \<^verbatim>\<open>(None, False)\<close> when no text is found,
  \<^verbatim>\<open>(json.loads(value_raw), not bool(is_fresh))\<close> otherwise.
\<close>

definition cache_get :: "real \<Rightarrow> pool \<Rightarrow> string \<Rightarrow> exn + (pyval \<times> bool)" where
  "cache_get now p key =
     except_RedisError
       (try_redis p (\<lambda>s.
          let value_raw = redis_get now s key;
              is_fresh = redis_exists now s (key @ '':fresh'')
          in (case value_raw of
                None \<Rightarrow> (PNone, False)
              | Some raw \<Rightarrow> (json_loads raw, \<not> is_fresh))))
       (PNone, False)"

text \<open>
  \<^verbatim>\<open>cache_set\<close>: the serialized value with expiry \<^verbatim>\<open>ttl + CACHE_STALE_GRACE\<close>, the
  sentinel with expiry \<^verbatim>\<open>ttl\<close>, in one pipeline (\<^verbatim>\<open>MULTI\<close>/\<^verbatim>\<open>EXEC\<close>). The server
  runs both commands, each on its own: one that it refuses does not keep the other from
  taking effect. \<^verbatim>\<open>execute\<close> then raises the \<^verbatim>\<open>ResponseError\<close> of a refused
  command, a \<^verbatim>\<open>RedisError\<close>, which \<^verbatim>\<open>cache_set\<close> logs and drops. The result is the
  pool after the call.
\<close>

definition cache_set :: "int \<Rightarrow> real \<Rightarrow> pool \<Rightarrow> string \<Rightarrow> pyval \<Rightarrow> int \<Rightarrow> exn + pool" where
  "cache_set grace now p key v ttl =
     except_RedisError
       (try_redis p (\<lambda>s.
          let stale_ttl = ttl + grace;
              serialized = json_dumps v
          in Reachable
               (redis_setex now (key @ '':fresh'') ttl (DInt 1)
                  (redis_setex now key stale_ttl serialized s))))
       p"

definition cache_delete :: "pool \<Rightarrow> string \<Rightarrow> exn + pool" where
  "cache_delete p key =
     except_RedisError
       (try_redis p (\<lambda>s. Reachable (kv_del (key @ '':fresh'') (kv_del key s))))
       p"

text \<open>
  \<^verbatim>\<open>invalidate_pattern\<close>: \<^verbatim>\<open>scan_iter\<close> yields the visible keys that match the
  pattern; each is deleted and counted. The store's glob matcher is the parameter
  \<open>glob\<close> (pattern, key).
\<close>

definition scan_keys :: "(string \<Rightarrow> string \<Rightarrow> bool) \<Rightarrow> real \<Rightarrow> redis \<Rightarrow> string \<Rightarrow> string list" where
  "scan_keys glob now s pattern =
     filter (\<lambda>k. glob pattern k \<and> redis_exists now s k) (remdups (map fst s))"

definition invalidate_pattern ::
  "(string \<Rightarrow> string \<Rightarrow> bool) \<Rightarrow> real \<Rightarrow> pool \<Rightarrow> string \<Rightarrow> exn + (nat \<times> pool)" where
  "invalidate_pattern glob now p pattern =
     except_RedisError
       (try_redis p (\<lambda>s.
          let ks = scan_keys glob now s pattern
          in (length ks, Reachable (foldl (\<lambda>s' k. kv_del k s') s ks))))
       (0, p)"

section \<open>Fetch executor (services/fetcher.py)\<close>

text \<open>
  What one \<^verbatim>\<open>client.get\<close> of \<^verbatim>\<open>_fetch_one\<close> ends in: a 2xx response whose body
  parses (with the measured milliseconds), an \<^verbatim>\<open>httpx.TimeoutException\<close> or
  \<^verbatim>\<open>httpx.ConnectError\<close> (the two that tenacity retries), or any other exception
  (\<^verbatim>\<open>raise_for_status\<close>, a body that is not JSON, ...). The failures carry
  \<^verbatim>\<open>str(exc)\<close>. The upstream gives, per URL, the result of the n-th attempt.
\<close>

datatype attempt = Response json nat | ConnFailure string | OtherFailure string

type_synonym upstream = "string \<Rightarrow> nat \<Rightarrow> attempt"

text \<open>
  The tenacity decorator: attempt \<open>i\<close> is retried when it is a connection failure and
  attempts are left (\<^verbatim>\<open>stop_after_attempt(settings.MAX_RETRIES)\<close>); the last exception
  is re-raised. The result is the final attempt and its number, which is the number of
  requests sent.
\<close>

fun retry_loop :: "(nat \<Rightarrow> attempt) \<Rightarrow> nat \<Rightarrow> nat \<Rightarrow> attempt \<times> nat" where
  "retry_loop rsp 0 i = (rsp i, i)"
| "retry_loop rsp (Suc left) i =
     (case rsp i of
        ConnFailure e \<Rightarrow> retry_loop rsp left (Suc i)
      | a \<Rightarrow> (a, i))"

text \<open>
  \<^verbatim>\<open>_fetch_one\<close>: \<open>Inr (records, ms)\<close> on success, \<open>Inl (str(exc))\<close> for the exception
  that leaves it; a body that is not a list is wrapped in one.
\<close>

definition fetch_one :: "int \<Rightarrow> upstream \<Rightarrow> string \<Rightarrow> (string + json list \<times> nat) \<times> nat" where
  "fetch_one max_retries up u =
     (case retry_loop (up u) (nat (max_retries - 1)) 1 of
        (Response data ms, n) \<Rightarrow> (Inr ((case data of JList xs \<Rightarrow> xs | _ \<Rightarrow> [data]), ms), n)
      | (ConnFailure e, n) \<Rightarrow> (Inl e, n)
      | (OtherFailure e, n) \<Rightarrow> (Inl e, n))"

text \<open>The dict \<^verbatim>\<open>_guarded\<close> returns.\<close>

record outcome =
  url :: string
  source_key :: string
  records :: "json list"
  duration_ms :: nat
  error :: "string option"

text \<open>\<^verbatim>\<open>url.rstrip("/").rsplit("/", 1)[-1]\<close>\<close>

definition source_key_of :: "string \<Rightarrow> string" where
  "source_key_of u =
     (let stripped = rev (dropWhile (\<lambda>ch. ch = CHR ''/'') (rev u))
      in rev (takeWhile (\<lambda>ch. ch \<noteq> CHR ''/'') (rev stripped)))"

text \<open>The message of a rejected fetch; the dash is U+2014, three bytes in UTF-8.\<close>

definition circuit_open_msg :: string where
  "circuit_open_msg =
     ''Circuit open '' @ [CHR 0xE2, CHR 0x80, CHR 0x94] @ '' upstream unavailable''"

definition rejected :: "string \<Rightarrow> outcome" where
  "rejected u =
     \<lparr>url = u, source_key = source_key_of u, records = [], duration_ms = 0,
      error = Some circuit_open_msg\<rparr>"

text \<open>
  The part of \<^verbatim>\<open>_guarded\<close> under the semaphore, for a source the breaker let through:
  the outcome, the breaker state after \<^verbatim>\<open>_record_success\<close> or \<^verbatim>\<open>_record_failure\<close>
  (at clock reading \<open>t_end\<close>), and the number of requests sent. \<^verbatim>\<open>except Exception\<close>
  turns every exception of the fetch into an error outcome.
\<close>

definition attempt_fetch ::
  "int \<Rightarrow> upstream \<Rightarrow> real \<Rightarrow> string \<Rightarrow> circuit \<Rightarrow> outcome \<times> circuit \<times> nat" where
  "attempt_fetch max_retries up t_end u c =
     (case fetch_one max_retries up u of
        (Inr (recs, ms), n) \<Rightarrow>
          (\<lparr>url = u, source_key = source_key_of u, records = recs, duration_ms = ms,
            error = None\<rparr>, record_success u c, n)
      | (Inl e, n) \<Rightarrow>
          (\<lparr>url = u, source_key = source_key_of u, records = [], duration_ms = 0,
            error = Some e\<rparr>, record_failure t_end u c, n))"

text \<open>
  \<^verbatim>\<open>asyncio.gather\<close> starts one \<^verbatim>\<open>_guarded\<close> task per URL, in order. Each task runs
  up to its first network wait before the next one starts (an uncontended lock does not
  suspend), so all breaker checks happen first, at clock reading \<open>now\<close>; the fetches
  end later, the one of \<open>u\<close> at \<open>fin u\<close>. \<^verbatim>\<open>gather\<close> returns the outcomes in the order
  of the URLs. The semaphore bounds how many fetches are in flight and does not change
  any outcome. The third component is the log of the URLs requested.
\<close>

fun breaker_checks :: "real \<Rightarrow> string list \<Rightarrow> circuit \<Rightarrow> bool list \<times> circuit" where
  "breaker_checks now [] c = ([], c)"
| "breaker_checks now (u # us) c =
     (case is_open now u c of
        (b, c1) \<Rightarrow> (case breaker_checks now us c1 of (bs, c2) \<Rightarrow> (b # bs, c2)))"

fun finish_fetches ::
  "int \<Rightarrow> upstream \<Rightarrow> (string \<Rightarrow> real) \<Rightarrow> (string \<times> bool) list \<Rightarrow> circuit
     \<Rightarrow> outcome list \<times> circuit \<times> string list" where
  "finish_fetches max_retries up fin [] c = ([], c, [])"
| "finish_fetches max_retries up fin ((u, opn) # rest) c =
     (if opn then
        (case finish_fetches max_retries up fin rest c of
           (os, c', calls) \<Rightarrow> (rejected u # os, c', calls))
      else
        (case attempt_fetch max_retries up (fin u) u c of
           (out, c1, n) \<Rightarrow>
             (case finish_fetches max_retries up fin rest c1 of
                (os, c2, calls) \<Rightarrow> (out # os, c2, replicate n u @ calls))))"

definition fetch_sources ::
  "int \<Rightarrow> upstream \<Rightarrow> real \<Rightarrow> (string \<Rightarrow> real) \<Rightarrow> string list \<Rightarrow> circuit
     \<Rightarrow> outcome list \<times> circuit \<times> string list" where
  "fetch_sources max_retries up now fin urls c =
     (case breaker_checks now urls c of
        (opens, c1) \<Rightarrow> finish_fetches max_retries up fin (zip urls opens) c1)"

section \<open>Reconciler (repositories/records.py, models.py)\<close>

text \<open>
  A row of \<^verbatim>\<open>data_records\<close>. The surrogate key \<^verbatim>\<open>id\<close> and the timestamp
  \<^verbatim>\<open>fetched_at\<close> are left out: a row is identified by its position, and no code path
  below reads either column. The table is kept grouped by \<^verbatim>\<open>source_key\<close>: \<open>tbl k\<close>
  is what \<^verbatim>\<open>select(DataRecord).where(DataRecord.source_key == k)\<close> returns.
\<close>

record data_record =
  row_source_key :: string
  row_source_url :: string
  external_id :: "int option"
  payload :: json
  checksum :: string

type_synonym table = "string \<Rightarrow> data_record list"

text \<open>\<^verbatim>\<open>r.get("id") if isinstance(r, dict) else None\<close>\<close>

fun is_dict :: "json \<Rightarrow> bool" where
  "is_dict (JObj kvs) = True"
| "is_dict _ = False"

fun get_id :: "json \<Rightarrow> json" where
  "get_id (JObj kvs) = (case map_of kvs ''id'' of Some v \<Rightarrow> v | None \<Rightarrow> JNull)"
| "get_id _ = JNull"

text \<open>
  \<^verbatim>\<open>self._checksum(r) if isinstance(r, dict) else ""\<close>. The digest (SHA-256 of the
  dump with sorted keys) is the parameter \<open>cks\<close>.
\<close>

definition checksum_of :: "(json \<Rightarrow> string) \<Rightarrow> json \<Rightarrow> string" where
  "checksum_of cks r = (if is_dict r then cks r else [])"

text \<open>
  The keys of \<^verbatim>\<open>existing\<close> are column values: integers or \<^verbatim>\<open>None\<close>. Looking up a
  list or a dict raises \<^verbatim>\<open>TypeError\<close> (unhashable); any other JSON value is compared
  as Python compares it: an integer with an equal integer, \<^verbatim>\<open>True\<close> and \<^verbatim>\<open>False\<close> with
  1 and 0, \<^verbatim>\<open>None\<close> with \<^verbatim>\<open>None\<close>, a string with nothing.
\<close>

fun hashable :: "json \<Rightarrow> bool" where
  "hashable (JList xs) = False"
| "hashable (JObj kvs) = False"
| "hashable _ = True"

fun py_eq :: "json \<Rightarrow> int option \<Rightarrow> bool" where
  "py_eq (JInt n) (Some m) = (n = m)"
| "py_eq (JBool b) (Some m) = (m = (if b then 1 else 0))"
| "py_eq JNull None = True"
| "py_eq _ _ = False"

text \<open>
  \<^verbatim>\<open>existing = {row.external_id: row for row in rows}\<close> holds the row objects
  themselves, the last row winning for a repeated key. The model keeps the rows and
  reads the dict through them: \<open>existing_get\<close> is \<^verbatim>\<open>existing.get\<close>, and assigning
  to \<^verbatim>\<open>existing[k].payload\<close> and \<^verbatim>\<open>.checksum\<close> is \<open>set_existing\<close>.
\<close>

definition existing_get :: "data_record list \<Rightarrow> json \<Rightarrow> data_record option" where
  "existing_get rows j = find (\<lambda>row. py_eq j (external_id row)) (rev rows)"

fun upd_first :: "('a \<Rightarrow> bool) \<Rightarrow> ('a \<Rightarrow> 'a) \<Rightarrow> 'a list \<Rightarrow> 'a list" where
  "upd_first P f [] = []"
| "upd_first P f (x # xs) = (if P x then f x # xs else x # upd_first P f xs)"

definition set_existing :: "json \<Rightarrow> json \<Rightarrow> string \<Rightarrow> data_record list \<Rightarrow> data_record list" where
  "set_existing j r c rows =
     rev (upd_first (\<lambda>row. py_eq j (external_id row))
                    (\<lambda>row. row\<lparr>payload := r, checksum := c\<rparr>) (rev rows))"

text \<open>
  The loop over the fetched records: \<open>upsert_step\<close> is its body, on the rows,
  \<^verbatim>\<open>to_insert\<close> and \<^verbatim>\<open>changed\<close>. \<open>to_insert\<close> collects the new rows as
  (external id, payload, checksum); their source key and URL are the arguments of
  \<^verbatim>\<open>upsert_source\<close>.
\<close>

type_synonym pending = "json \<times> json \<times> string"

definition upsert_step ::
  "(json \<Rightarrow> string) \<Rightarrow> json \<Rightarrow> data_record list \<times> pending list \<times> nat
     \<Rightarrow> exn + (data_record list \<times> pending list \<times> nat)" where
  "upsert_step cks r st =
     (case st of (rows, to_insert, changed) \<Rightarrow>
        let ext_id = get_id r; csum = checksum_of cks r in
        if truthy ext_id \<and> \<not> hashable ext_id then Inl TypeError
        else if truthy ext_id \<and> existing_get rows ext_id \<noteq> None then
          (case existing_get rows ext_id of
             Some row \<Rightarrow>
               if checksum row \<noteq> csum
               then Inr (set_existing ext_id r csum rows, to_insert, changed + 1)
               else Inr (rows, to_insert, changed)
           | None \<Rightarrow> Inr (rows, to_insert, changed))
        else Inr (rows, to_insert @ [(ext_id, r, csum)], changed + 1))"

fun upsert_loop ::
  "(json \<Rightarrow> string) \<Rightarrow> json list \<Rightarrow> data_record list \<times> pending list \<times> nat
     \<Rightarrow> exn + (data_record list \<times> pending list \<times> nat)" where
  "upsert_loop cks [] st = Inr st"
| "upsert_loop cks (r # rs) st =
     (case upsert_step cks r st of
        Inl e \<Rightarrow> Inl e
      | Inr st' \<Rightarrow> upsert_loop cks rs st')"

text \<open>
  Strings are kept as their UTF-8 bytes. A \<^verbatim>\<open>String(n)\<close> column is a Postgres
  \<^verbatim>\<open>VARCHAR(n)\<close>, and \<open>n\<close> counts characters: the bytes that are not continuation
  bytes. Storing a string in such a column fails when it holds a NUL character, which no
  text column takes, and when it is longer than \<open>n\<close> characters, unless all the
  characters in excess are spaces: then the first \<open>n\<close> characters are stored.
\<close>

definition continuation :: "char \<Rightarrow> bool" where
  "continuation c = (128 \<le> (of_char c :: nat) \<and> (of_char c :: nat) < 192)"

definition char_len :: "string \<Rightarrow> nat" where
  "char_len s = length (filter (\<lambda>c. \<not> continuation c) s)"

fun utf8_take :: "nat \<Rightarrow> string \<Rightarrow> string" where
  "utf8_take n [] = []"
| "utf8_take n (c # cs) =
     (if continuation c then c # utf8_take n cs
      else (case n of 0 \<Rightarrow> [] | Suc m \<Rightarrow> c # utf8_take m cs))"

definition varchar :: "nat \<Rightarrow> string \<Rightarrow> string option" where
  "varchar n s =
     (if CHR 0x00 \<in> set s then None
      else if char_len s \<le> n then Some s
      else (let kept = utf8_take n s
            in if list_all (\<lambda>c. c = CHR '' '') (drop (length kept) s) then Some kept
               else None))"

text \<open>
  The flush of the new rows. \<^verbatim>\<open>external_id\<close> is an \<^verbatim>\<open>Integer\<close> column (32 bits,
  nullable): \<^verbatim>\<open>None\<close> is stored as NULL, an integer in range (or a \<^verbatim>\<open>bool\<close>, which
  is an \<^verbatim>\<open>int\<close>) as itself, anything else is refused by the driver. The unique index
  \<^verbatim>\<open>ix_source_ext\<close> on (source_key, external_id) refuses a second row with the same
  non-NULL external id; NULLs never collide.
\<close>

fun to_column :: "json \<Rightarrow> exn + int option" where
  "to_column JNull = Inr None"
| "to_column (JInt n) =
     (if - 2147483648 \<le> n \<and> n \<le> 2147483647 then Inr (Some n) else Inl DataError)"
| "to_column (JBool b) = Inr (Some (if b then 1 else 0))"
| "to_column _ = Inl DataError"

fun insert_rows ::
  "string \<Rightarrow> string \<Rightarrow> pending list \<Rightarrow> data_record list \<Rightarrow> exn + data_record list" where
  "insert_rows key src [] rows = Inr rows"
| "insert_rows key src ((j, r, c) # ps) rows =
     (case to_column j of
        Inl e \<Rightarrow> Inl e
      | Inr eid \<Rightarrow>
          if eid \<noteq> None \<and> eid \<in> set (map external_id rows) then Inl IntegrityError
          else insert_rows key src ps
                 (rows @ [\<lparr>row_source_key = key, row_source_url = src, external_id = eid,
                           payload = r, checksum = c\<rparr>]))"

text \<open>
  \<^verbatim>\<open>incoming_ids\<close> and \<^verbatim>\<open>stale\<close>: the keys of \<^verbatim>\<open>existing\<close> that are not among the
  truthy ids of the fetched dicts. \<^verbatim>\<open>None\<close> is never among them, so the key \<^verbatim>\<open>None\<close>
  is always stale.
\<close>

definition incoming_ids :: "json list \<Rightarrow> json list" where
  "incoming_ids recs = map get_id (filter (\<lambda>r. is_dict r \<and> truthy (get_id r)) recs)"

definition stale_ids :: "data_record list \<Rightarrow> json list \<Rightarrow> int option list" where
  "stale_ids rows recs =
     filter (\<lambda>eid. \<not> list_ex (\<lambda>j. py_eq j eid) (incoming_ids recs))
            (remdups (map external_id rows))"

text \<open>
  \<^verbatim>\<open>DataRecord.external_id.in_(stale)\<close> is SQL's \<^verbatim>\<open>external_id IN (...)\<close>: it is
  true of a row only when the row's external id is not NULL and equals a member of the
  list; a NULL external id satisfies no \<^verbatim>\<open>IN\<close>, whatever the list holds.
\<close>

definition sql_in :: "int option \<Rightarrow> int option list \<Rightarrow> bool" where
  "sql_in x xs = (case x of None \<Rightarrow> False | Some n \<Rightarrow> Some n \<in> set xs)"

text \<open>
  The block \<^verbatim>\<open>if existing: ... if stale: delete(...)\<close>, on the rows of the source as
  they are after the flush.
\<close>

definition delete_stale :: "data_record list \<Rightarrow> json list \<Rightarrow> data_record list \<Rightarrow> data_record list" where
  "delete_stale existing recs rows =
     (if existing \<noteq> [] then
        (let stale = stale_ids existing recs in
         if stale \<noteq> []
         then filter (\<lambda>row. \<not> sql_in (external_id row) stale) rows
         else rows)
      else rows)"

text \<open>
  The \<^verbatim>\<open>INSERT\<close> of \<^verbatim>\<open>to_insert\<close>, on the table as the session sees it. Nothing is
  sent when there is nothing to insert. Otherwise \<^verbatim>\<open>source_key\<close> goes into a
  \<^verbatim>\<open>String(100)\<close> and \<^verbatim>\<open>source_url\<close> into a \<^verbatim>\<open>String(500)\<close> column, and the new
  rows are stored under the source key as the column keeps it. The \<^verbatim>\<open>String(64)\<close>
  column \<^verbatim>\<open>checksum\<close> takes every digest (64 hexadecimal characters) and the empty
  string. A failed statement is a \<^verbatim>\<open>DBAPIError\<close>: \<open>DataError\<close>, or \<open>IntegrityError\<close>
  for the unique index.
\<close>

definition flush_new :: "string \<Rightarrow> string \<Rightarrow> pending list \<Rightarrow> table \<Rightarrow> exn + table" where
  "flush_new key src to_insert tbl =
     (if to_insert = [] then Inr tbl
      else (case (varchar 100 key, varchar 500 src) of
              (Some k, Some u) \<Rightarrow>
                (case insert_rows k u to_insert (tbl k) of
                   Inl e \<Rightarrow> Inl e
                 | Inr rows \<Rightarrow> Inr (tbl(k := rows)))
            | _ \<Rightarrow> Inl DataError))"

text \<open>
  \<^verbatim>\<open>upsert_source\<close>. The session flushes the changed and the new rows before it runs
  the \<^verbatim>\<open>DELETE\<close> (autoflush), so the statement sees them. The result is
  \<^verbatim>\<open>(len(records), changed)\<close> and the table as the session then sees it.
\<close>

definition upsert_source ::
  "(json \<Rightarrow> string) \<Rightarrow> string \<Rightarrow> string \<Rightarrow> json list \<Rightarrow> table \<Rightarrow> exn + ((nat \<times> nat) \<times> table)" where
  "upsert_source cks key src recs tbl =
     (let existing = tbl key in
      case upsert_loop cks recs (existing, [], 0) of
        Inl e \<Rightarrow> Inl e
      | Inr (rows1, to_insert, changed) \<Rightarrow>
          (case flush_new key src to_insert (tbl(key := rows1)) of
             Inl e \<Rightarrow> Inl e
           | Inr tbl2 \<Rightarrow>
               Inr ((length recs, changed),
                    tbl2(key := delete_stale existing recs (tbl2 key)))))"

section \<open>Refresh orchestrator (services/aggregator.py, repositories/audits.py)\<close>

record audit =
  audit_source_url :: string
  audit_source_key :: string
  status :: string
  audit_records_fetched :: nat
  audit_records_changed :: nat
  audit_duration_ms :: nat
  error_detail :: "string option"
  triggered_by :: string

record refresh_response =
  message :: string
  sources_refreshed :: nat
  records_upserted :: nat
  records_changed :: nat
  errors :: "string list"

record db =
  data_records :: table
  fetch_audits :: "audit list"

text \<open>
  The text of \<^verbatim>\<open>result["error"]\<close>, empty for \<^verbatim>\<open>None\<close>: \<^verbatim>\<open>if result["error"]\<close> and
  \<^verbatim>\<open>not r["error"]\<close> test whether it is empty.
\<close>

definition error_text :: "outcome \<Rightarrow> string" where
  "error_text result = (case error result of None \<Rightarrow> [] | Some e \<Rightarrow> e)"

definition error_audit :: "string \<Rightarrow> outcome \<Rightarrow> audit" where
  "error_audit trig result =
     \<lparr>audit_source_url = url result, audit_source_key = source_key result,
      status = ''error'', audit_records_fetched = 0, audit_records_changed = 0,
      audit_duration_ms = 0, error_detail = error result, triggered_by = trig\<rparr>"

definition ok_audit :: "string \<Rightarrow> outcome \<Rightarrow> nat \<Rightarrow> nat \<Rightarrow> audit" where
  "ok_audit trig result fetched changed =
     \<lparr>audit_source_url = url result, audit_source_key = source_key result,
      status = ''ok'', audit_records_fetched = fetched, audit_records_changed = changed,
      audit_duration_ms = duration_ms result, error_detail = None, triggered_by = trig\<rparr>"

text \<open>
  The \<^verbatim>\<open>INSERT\<close> of a row of \<^verbatim>\<open>fetch_audits\<close>: \<^verbatim>\<open>source_url\<close> is a
  \<^verbatim>\<open>String(500)\<close>, \<^verbatim>\<open>source_key\<close> a \<^verbatim>\<open>String(100)\<close>, \<^verbatim>\<open>status\<close> a
  \<^verbatim>\<open>String(20)\<close>, \<^verbatim>\<open>triggered_by\<close> a \<^verbatim>\<open>String(50)\<close>, \<^verbatim>\<open>error_detail\<close> a
  \<^verbatim>\<open>Text\<close>, and the three counts are \<^verbatim>\<open>Integer\<close> columns of 32 bits.
  \<open>audit_stored\<close> is the row as the table keeps it, \<open>None\<close> when the statement fails.
\<close>

definition audit_stored :: "audit \<Rightarrow> audit option" where
  "audit_stored a =
     (case (varchar 500 (audit_source_url a), varchar 100 (audit_source_key a),
            varchar 20 (status a), varchar 50 (triggered_by a)) of
        (Some u, Some k, Some st, Some tr) \<Rightarrow>
          if audit_records_fetched a \<le> 2147483647 \<and> audit_records_changed a \<le> 2147483647
             \<and> audit_duration_ms a \<le> 2147483647
             \<and> (case error_detail a of None \<Rightarrow> True | Some e \<Rightarrow> CHR 0x00 \<notin> set e)
          then Some (a\<lparr>audit_source_url := u, audit_source_key := k, status := st,
                       triggered_by := tr\<rparr>)
          else None
      | _ \<Rightarrow> None)"

text \<open>
  A flush of the audit rows that the session holds: it fails when one of them is
  refused.
\<close>

definition flush_audits :: "audit list \<Rightarrow> exn + audit list" where
  "flush_audits added =
     (if list_all (\<lambda>a. audit_stored a \<noteq> None) added
      then Inr (map (\<lambda>a. case audit_stored a of Some a' \<Rightarrow> a' | None \<Rightarrow> a) added)
      else Inl DataError)"

text \<open>
  The loop \<^verbatim>\<open>for result in raw_results\<close>, on the session's view of the table, the
  audit entries added, \<^verbatim>\<open>total_upserted\<close>, \<^verbatim>\<open>total_changed\<close> and \<^verbatim>\<open>errors\<close>.
  \<^verbatim>\<open>audit_repo.log\<close> only adds its row to the session. The \<^verbatim>\<open>select\<close> that
  \<^verbatim>\<open>upsert_source\<close> starts with flushes the session first (autoflush), which writes
  the audit rows added since the last flush; the rows written by an earlier flush have
  passed and pass again.
\<close>

type_synonym progress = "table \<times> audit list \<times> nat \<times> nat \<times> string list"

fun process_results ::
  "(json \<Rightarrow> string) \<Rightarrow> string \<Rightarrow> outcome list \<Rightarrow> progress \<Rightarrow> exn + progress" where
  "process_results cks trig [] st = Inr st"
| "process_results cks trig (result # rest) (tbl, added, total_upserted, total_changed, errs) =
     (if error_text result \<noteq> [] then
        process_results cks trig rest
          (tbl, added @ [error_audit trig result], total_upserted, total_changed,
           errs @ [source_key result @ '': '' @ error_text result])
      else
        (case flush_audits added of
           Inl e \<Rightarrow> Inl e
         | Inr written \<Rightarrow>
             (case upsert_source cks (source_key result) (url result) (records result) tbl of
                Inl e \<Rightarrow> Inl e
              | Inr ((fetched, changed), tbl') \<Rightarrow>
                  process_results cks trig rest
                    (tbl', added @ [ok_audit trig result fetched changed],
                     total_upserted + fetched, total_changed + changed, errs))))"

text \<open>
  \<^verbatim>\<open>refresh_data\<close> from \<^verbatim>\<open>raw_results\<close> on: the loop, \<^verbatim>\<open>db.commit()\<close>, which
  flushes the audit rows and commits, \<^verbatim>\<open>invalidate_pattern("agg:v2:*")\<close>, the
  response. The result is the committed database, the cache pool and what the caller
  gets. An exception in the loop or in the flush leaves before the commit, and the
  session's changes are dropped with it; an exception of the invalidation leaves after
  the commit.
\<close>

definition refresh_results ::
  "(json \<Rightarrow> string) \<Rightarrow> (string \<Rightarrow> string \<Rightarrow> bool) \<Rightarrow> real \<Rightarrow> string \<Rightarrow> outcome list \<Rightarrow> db \<Rightarrow> pool
     \<Rightarrow> db \<times> pool \<times> (exn + refresh_response)" where
  "refresh_results cks glob now trig raw_results d p =
     (case process_results cks trig raw_results (data_records d, [], 0, 0, []) of
        Inl e \<Rightarrow> (d, p, Inl e)
      | Inr (tbl, added, total_upserted, total_changed, errs) \<Rightarrow>
          (case flush_audits added of
             Inl e \<Rightarrow> (d, p, Inl e)
           | Inr written \<Rightarrow>
               (let d' = \<lparr>data_records = tbl, fetch_audits = fetch_audits d @ written\<rparr> in
                case invalidate_pattern glob now p ''agg:v2:*'' of
                  Inl e \<Rightarrow> (d', p, Inl e)
                | Inr (n, p') \<Rightarrow>
                    (d', p',
                     Inr \<lparr>message = ''Refresh complete'',
                          sources_refreshed =
                            length (filter (\<lambda>r. error_text r = []) raw_results),
                          records_upserted = total_upserted,
                          records_changed = total_changed,
                          errors = errs\<rparr>))))"

text \<open>
  \<^verbatim>\<open>refresh_data\<close>: \<^verbatim>\<open>fetch_sources(settings.DATA_SOURCES)\<close>, then the above. \<open>now\<close>
  and \<open>fin\<close> are the clock readings of the fetch, \<open>cache_now\<close> is the store's clock at
  the invalidation.
\<close>

definition refresh_data ::
  "(json \<Rightarrow> string) \<Rightarrow> (string \<Rightarrow> string \<Rightarrow> bool) \<Rightarrow> int \<Rightarrow> upstream \<Rightarrow> real \<Rightarrow> (string \<Rightarrow> real)
     \<Rightarrow> real \<Rightarrow> string \<Rightarrow> string list \<Rightarrow> circuit \<Rightarrow> db \<Rightarrow> pool
     \<Rightarrow> (db \<times> pool \<times> (exn + refresh_response)) \<times> circuit" where
  "refresh_data cks glob max_retries up now fin cache_now trig data_sources c d p =
     (case fetch_sources max_retries up now fin data_sources c of
        (raw_results, c', calls) \<Rightarrow>
          (refresh_results cks glob cache_now trig raw_results d p, c'))"

section \<open>Conditions used in the statements\<close>

text \<open>
  A Python value is JSON-native when no object that \<^verbatim>\<open>json\<close> cannot encode occurs in
  it: these are the values that \<^verbatim>\<open>json.dumps\<close> serializes without \<^verbatim>\<open>default\<close>.
\<close>

fun json_native :: "pyval \<Rightarrow> bool" where
  "json_native (PList xs) = list_all json_native xs"
| "json_native (PDict kvs) = list_all json_native (map snd kvs)"
| "json_native (PObject s) = False"
| "json_native _ = True"

text \<open>
  A string fits a \<^verbatim>\<open>String(n)\<close> column when it is stored there as it is. An outcome
  is storable when its audit row is: URL, source key and trigger fit their columns, the
  counts fit 32 bits, and the error description holds no NUL character.
\<close>

definition fits :: "nat \<Rightarrow> string \<Rightarrow> bool" where
  "fits n s = (CHR 0x00 \<notin> set s \<and> char_len s \<le> n)"

definition storable :: "string \<Rightarrow> outcome \<Rightarrow> bool" where
  "storable trig x =
     (fits 500 (url x) \<and> fits 100 (source_key x) \<and> fits 50 trig
      \<and> duration_ms x \<le> 2147483647 \<and> length (records x) \<le> 2147483647
      \<and> (case error x of None \<Rightarrow> True | Some e \<Rightarrow> CHR 0x00 \<notin> set e))"


text \<open>
  A record is keyed when it is an object whose \<^verbatim>\<open>id\<close> is a non-zero integer that fits
  the 32-bit column; a list of records is well keyed when all are keyed and no id
  repeats. A list is insertable when every record is keyed or has no id at all
  (\<^verbatim>\<open>r.get("id")\<close> is \<^verbatim>\<open>None\<close>), and no id repeats among the keyed ones.
\<close>

definition keyed :: "json \<Rightarrow> bool" where
  "keyed r =
     (case get_id r of
        JInt n \<Rightarrow> n \<noteq> 0 \<and> - 2147483648 \<le> n \<and> n \<le> 2147483647
      | _ \<Rightarrow> False)"

definition well_keyed :: "json list \<Rightarrow> bool" where
  "well_keyed recs = (list_all keyed recs \<and> distinct (map get_id recs))"

definition insertable :: "json list \<Rightarrow> bool" where
  "insertable recs =
     (list_all (\<lambda>r. get_id r = JNull \<or> keyed r) recs
      \<and> distinct (filter (\<lambda>j. j \<noteq> JNull) (map get_id recs)))"

text \<open>
  The rows of a source are in step with a list of fetched records when every record
  finds, under its id, a row with the record's checksum, and every row with an
  external id has the id of one of the records.
\<close>

definition in_step :: "(json \<Rightarrow> string) \<Rightarrow> data_record list \<Rightarrow> json list \<Rightarrow> bool" where
  "in_step cks rows recs =
     (list_all (\<lambda>r. case existing_get rows (get_id r) of
                       None \<Rightarrow> False
                     | Some row \<Rightarrow> checksum row = cks r) recs
      \<and> list_all (\<lambda>row. case external_id row of
                          None \<Rightarrow> True
                        | Some n \<Rightarrow> JInt n \<in> set (map get_id recs)) rows)"

text \<open>
  What the loop and the flush produce for an insertable list: the records that find no
  row become pending rows, in order, and \<open>new_row\<close> is the row the flush writes for
  one of them.
\<close>

definition pending_of :: "(json \<Rightarrow> string) \<Rightarrow> data_record list \<Rightarrow> json list \<Rightarrow> pending list" where
  "pending_of cks rows recs =
     map (\<lambda>r. (get_id r, r, checksum_of cks r))
         (filter (\<lambda>r. get_id r = JNull \<or> existing_get rows (get_id r) = None) recs)"

definition new_row :: "string \<Rightarrow> string \<Rightarrow> pending \<Rightarrow> data_record" where
  "new_row key src p =
     (case p of (j, r, c) \<Rightarrow>
        \<lparr>row_source_key = key, row_source_url = src,
         external_id = (case j of JInt n \<Rightarrow> Some n | _ \<Rightarrow> None),
         payload = r, checksum = c\<rparr>)"

text \<open>
  The rows of a source hold a list of fetched records when every record has a row with
  its id as external id (none for a record without id) and with its checksum, and every
  row with an external id has the id of one of the records. \<open>last_fetch raw k\<close> is the
  record list of the last outcome without error in \<open>raw\<close> whose source key is \<open>k\<close>.
\<close>

definition holds_records :: "(json \<Rightarrow> string) \<Rightarrow> data_record list \<Rightarrow> json list \<Rightarrow> bool" where
  "holds_records cks rows recs =
     (list_all (\<lambda>r. list_ex (\<lambda>row. py_eq (get_id r) (external_id row)
                                    \<and> checksum row = checksum_of cks r) rows) recs
      \<and> list_all (\<lambda>row. case external_id row of
                          None \<Rightarrow> True
                        | Some n \<Rightarrow> JInt n \<in> set (map get_id recs)) rows)"

definition last_fetch :: "outcome list \<Rightarrow> string \<Rightarrow> json list option" where
  "last_fetch raw k =
     map_option records
       (find (\<lambda>x. source_key x = k) (rev (filter (\<lambda>x. error x = None) raw)))"

text \<open>Audit rows that the table keeps as they are.\<close>

definition stored_as_is :: "audit list \<Rightarrow> bool" where
  "stored_as_is added = list_all (\<lambda>a. audit_stored a = Some a) added"

section \<open>Circuit breaker: properties\<close>

lemma record_failure_fresh:
  "c u = None \<Longrightarrow>
     record_failure t u c = c(u \<mapsto> \<lparr>failures = 1, opened_at = 0\<rparr>)"
  by (simp add: record_failure_def FAILURE_THRESHOLD_def)

text \<open>
  C4. Starting with no breaker state for a source, one or two failures leave the
  breaker closed and the third consecutive failure opens it: \<open>is_open\<close> answers
  \<open>True\<close> while less than the recovery window has passed since that failure. A
  \<open>record_success\<close> on any breaker state removes the source's entry altogether
  (its failure count is gone, not decremented), and \<open>is_open\<close> then answers
  \<open>False\<close> and leaves the state alone.
\<close>

theorem C4_breaker_opens_at_threshold_and_resets:
  assumes "c u = None" and "now - tc < RECOVERY_SECONDS"
  shows "fst (is_open now u (record_failure ta u c)) = False
       \<and> fst (is_open now u (record_failure tb u (record_failure ta u c))) = False
       \<and> fst (is_open now u
            (record_failure tc u (record_failure tb u (record_failure ta u c)))) = True
       \<and> record_success u c' u = None
       \<and> is_open now' u (record_success u c') = (False, record_success u c')"
proof -
  let ?c1 = "record_failure ta u c"
  let ?c2 = "record_failure tb u ?c1"
  let ?c3 = "record_failure tc u ?c2"
  have c1: "?c1 u = Some \<lparr>failures = 1, opened_at = 0\<rparr>"
    using assms(1) by (simp add: record_failure_fresh)
  have c2: "?c2 u = Some \<lparr>failures = 2, opened_at = 0\<rparr>"
    using c1 by (simp add: record_failure_def FAILURE_THRESHOLD_def Let_def)
  have c3: "?c3 u = Some \<lparr>failures = 3, opened_at = tc\<rparr>"
    using c2 by (simp add: record_failure_def FAILURE_THRESHOLD_def Let_def)
  have "fst (is_open now u ?c1) = False"
    using c1 by (simp add: is_open_def FAILURE_THRESHOLD_def)
  moreover have "fst (is_open now u ?c2) = False"
    using c2 by (simp add: is_open_def FAILURE_THRESHOLD_def)
  moreover have "fst (is_open now u ?c3) = True"
    using c3 assms(2) by (simp add: is_open_def FAILURE_THRESHOLD_def)
  moreover have "record_success u c' u = None"
    by (simp add: record_success_def)
  moreover have "is_open now' u (record_success u c') = (False, record_success u c')"
    by (simp add: is_open_def record_success_def)
  ultimately show ?thesis by blast
qed

theorem C4_breaker_witness:
  "fst (is_open 12 ''https://x/posts''
         (record_failure 10 ''https://x/posts''
           (record_failure 5 ''https://x/posts''
             (record_failure 1 ''https://x/posts'' Map.empty)))) = True
   \<and> record_success ''https://x/posts''
         (record_failure 1 ''https://x/posts'' Map.empty) ''https://x/posts'' = None"
proof -
  have h1: "(Map.empty :: circuit) ''https://x/posts'' = None" by simp
  have h2: "(12::real) - 10 < RECOVERY_SECONDS" by (simp add: RECOVERY_SECONDS_def)
  from C4_breaker_opens_at_threshold_and_resets
         [OF h1 h2, where ta = 1 and tb = 5
            and c' = "record_failure 1 ''https://x/posts'' Map.empty"]
  show ?thesis by blast
qed

text \<open>
  C5. The breaker of \<^verbatim>\<open>u\<close> tripped at time 0 with three failures. At time 100 the
  recovery window has passed: the first check answers closed and stores a failure
  count of 2. A second check at the same time, with no outcome recorded in between,
  answers closed again and changes nothing: the code lets every further check
  through until a failure is recorded.
\<close>

theorem C5_second_check_also_closed:
  "is_open 100 ''u'' [''u'' \<mapsto> \<lparr>failures = 3, opened_at = 0\<rparr>]
     = (False, [''u'' \<mapsto> \<lparr>failures = 2, opened_at = 0\<rparr>])
   \<and> is_open 100 ''u'' [''u'' \<mapsto> \<lparr>failures = 2, opened_at = 0\<rparr>]
     = (False, [''u'' \<mapsto> \<lparr>failures = 2, opened_at = 0\<rparr>])"
  by (simp add: is_open_def FAILURE_THRESHOLD_def RECOVERY_SECONDS_def)

section \<open>Cache: properties\<close>

lemma map_of_kv_put: "map_of (kv_put k e s) k' = (if k' = k then Some e else map_of s k')"
  by (induction s) auto

lemma redis_get_setex:
  "expire_ok t0 ttl \<Longrightarrow>
   redis_get now (redis_setex t0 k ttl v s) k' =
     (if k' = k then (if now < t0 + real_of_int ttl then Some v else None)
      else redis_get now s k')"
  by (simp add: redis_get_def redis_setex_def map_of_kv_put)

lemma redis_setex_refused: "\<not> expire_ok t0 ttl \<Longrightarrow> redis_setex t0 k ttl v s = s"
  by (simp add: redis_setex_def)

lemma expire_ok_less:
  "expire_ok t0 (ttl + grace) \<Longrightarrow> 0 < ttl \<Longrightarrow> 0 \<le> grace \<Longrightarrow> expire_ok t0 ttl"
  by (simp add: expire_ok_def)

lemma cache_get_reachable:
  "cache_get now (Reachable s) k =
     Inr (case redis_get now s k of
            None \<Rightarrow> (PNone, False)
          | Some raw \<Rightarrow> (json_loads raw, \<not> redis_exists now s (k @ '':fresh'')))"
  by (simp add: cache_get_def except_RedisError_def try_redis_def get_redis_def
      with_store_def Let_def)

lemma cache_set_reachable:
  "cache_set grace t0 (Reachable s) k v ttl =
     Inr (Reachable (redis_setex t0 (k @ '':fresh'') ttl (DInt 1)
                      (redis_setex t0 k (ttl + grace) (json_dumps v) s)))"
  by (simp add: cache_set_def except_RedisError_def try_redis_def get_redis_def
      with_store_def Let_def)

lemma json_roundtrip: "json_native v \<Longrightarrow> json_loads (json_dumps v) = v"
proof (induction v)
  case (PList xs)
  then show ?case by (simp add: list_all_iff map_idI)
next
  case (PDict kvs)
  have "map (map_prod id (json_loads \<circ> json_dumps)) kvs = kvs"
  proof (rule map_idI)
    fix kv assume kv: "kv \<in> set kvs"
    obtain k w where e: "kv = (k, w)" by (cases kv)
    have "json_native w" using PDict.prems kv e by (force simp: list_all_iff)
    moreover have "w \<in> Basic_BNFs.snds kv" using e by simp
    ultimately have "json_loads (json_dumps w) = w" using PDict.IH kv by blast
    then show "map_prod id (json_loads \<circ> json_dumps) kv = kv" using e by simp
  qed
  then show ?case by (simp add: map_prod.comp)
qed simp_all

text \<open>
  C2, as the claim states it, fails, for a ttl that is not positive and for a value that
  is not JSON-native. With \<^verbatim>\<open>CACHE_STALE_GRACE = 60\<close>, at clock reading 1000 the store
  holds an older entry for \<open>k\<close>, written 60 seconds before with ttl 300, and
  \<^verbatim>\<open>cache_set(k, "new", -30)\<close> is called. The value is written with expiry 30; the
  server refuses the sentinel's \<^verbatim>\<open>SETEX\<close>, so the older sentinel stays, and one second
  later, after the ttl and before ttl + grace, \<^verbatim>\<open>cache_get(k)\<close> returns the new value
  as fresh where the claim has it stale. And a dict with a \<^verbatim>\<open>datetime\<close> in it, written
  with ttl 300, is read back with the \<^verbatim>\<open>datetime\<close> turned into a string.
\<close>

theorem C2_refused_sentinel_and_datetime:
  "cache_set 60 1000 (Reachable [(''k'', (DStr ''old'', 1300)), (''k:fresh'', (DInt 1, 1240))])
     ''k'' (PStr ''new'') (- 30)
     = Inr (Reachable [(''k'', (DStr ''new'', 1030)), (''k:fresh'', (DInt 1, 1240))])
   \<and> cache_get 1001
        (Reachable [(''k'', (DStr ''new'', 1030)), (''k:fresh'', (DInt 1, 1240))]) ''k''
      = Inr (PStr ''new'', False)
   \<and> cache_set 60 1000 (Reachable []) ''k''
        (PDict [(''total'', PInt 3), (''at'', PObject ''2024-01-01 00:00:00+00:00'')]) 300
     = Inr (Reachable
              [(''k'', (DObj [(''total'', DInt 3), (''at'', DStr ''2024-01-01 00:00:00+00:00'')],
                        1360)),
               (''k:fresh'', (DInt 1, 1300))])
   \<and> cache_get 1001
        (Reachable
           [(''k'', (DObj [(''total'', DInt 3), (''at'', DStr ''2024-01-01 00:00:00+00:00'')],
                     1360)),
            (''k:fresh'', (DInt 1, 1300))]) ''k''
      = Inr (PDict [(''total'', PInt 3), (''at'', PStr ''2024-01-01 00:00:00+00:00'')], False)"
  by (simp add: cache_set_reachable cache_get_reachable redis_setex_def expire_ok_def
      redis_get_def redis_exists_def)

text \<open>
  C2, amended. Let the ttl be positive, the grace window not negative, and the expiry
  \<open>ttl + grace\<close> one the store accepts. On a reachable store, \<open>cache_set k v ttl\<close> at
  time \<open>t0\<close> returns, and leaves a store \<open>s'\<close> that holds the serialized value under
  \<open>k\<close> expiring at \<open>t0 + ttl + grace\<close> and the sentinel under \<open>k:fresh\<close> expiring at
  \<open>t0 + ttl\<close>. A \<open>cache_get k\<close> on \<open>s'\<close> after \<open>e\<close> seconds returns the value read back
  from its serialization, which is \<open>v\<close> itself when \<open>v\<close> is JSON-native: as fresh when
  \<open>e < ttl\<close>, as stale when \<open>ttl < e < ttl + grace\<close>; and it returns \<open>(None, False)\<close> when
  \<open>ttl + grace < e\<close>. At every time \<open>t\<close>, on \<open>s'\<close>: the sentinel present means a fresh
  hit, the value present without the sentinel means a stale hit, neither present means
  a miss.
\<close>

theorem C2_cache_set_then_get:
  assumes "0 < ttl" and "0 \<le> grace" and "expire_ok t0 (ttl + grace)"
  shows "\<exists>s'. cache_set grace t0 (Reachable s) k v ttl = Inr (Reachable s')
            \<and> map_of s' k = Some (json_dumps v, t0 + real_of_int (ttl + grace))
            \<and> map_of s' (k @ '':fresh'') = Some (DInt 1, t0 + real_of_int ttl)
            \<and> (\<forall>e. (e < real_of_int ttl \<longrightarrow>
                      cache_get (t0 + e) (Reachable s') k
                        = Inr (json_loads (json_dumps v), False))
                  \<and> (real_of_int ttl < e \<and> e < real_of_int (ttl + grace) \<longrightarrow>
                      cache_get (t0 + e) (Reachable s') k
                        = Inr (json_loads (json_dumps v), True))
                  \<and> (real_of_int (ttl + grace) < e \<longrightarrow>
                      cache_get (t0 + e) (Reachable s') k = Inr (PNone, False)))
            \<and> (json_native v \<longrightarrow> json_loads (json_dumps v) = v)
            \<and> (\<forall>t. (redis_exists t s' (k @ '':fresh'') \<longrightarrow>
                      cache_get t (Reachable s') k = Inr (json_loads (json_dumps v), False))
                  \<and> (redis_exists t s' k \<and> \<not> redis_exists t s' (k @ '':fresh'') \<longrightarrow>
                      cache_get t (Reachable s') k = Inr (json_loads (json_dumps v), True))
                  \<and> (\<not> redis_exists t s' k \<and> \<not> redis_exists t s' (k @ '':fresh'') \<longrightarrow>
                      cache_get t (Reachable s') k = Inr (PNone, False)))"
proof -
  let ?s' = "redis_setex t0 (k @ '':fresh'') ttl (DInt 1)
               (redis_setex t0 k (ttl + grace) (json_dumps v) s)"
  have ok: "expire_ok t0 ttl"
    using assms by (rule_tac expire_ok_less) auto
  have val: "redis_get t ?s' k
               = (if t < t0 + real_of_int (ttl + grace) then Some (json_dumps v) else None)"
    for t using ok assms(3) by (simp add: redis_get_setex)
  have sen: "redis_exists t ?s' (k @ '':fresh'') = (t < t0 + real_of_int ttl)" for t
    using ok by (simp add: redis_exists_def redis_get_setex)
  have stored: "map_of ?s' k = Some (json_dumps v, t0 + real_of_int (ttl + grace))
              \<and> map_of ?s' (k @ '':fresh'') = Some (DInt 1, t0 + real_of_int ttl)"
    using ok assms(3) by (simp add: redis_setex_def map_of_kv_put)
  have fresh: "cache_get (t0 + e) (Reachable ?s') k = Inr (json_loads (json_dumps v), False)"
    if "e < real_of_int ttl" for e
    using that assms(2) by (simp add: cache_get_reachable val sen)
  have stale: "cache_get (t0 + e) (Reachable ?s') k = Inr (json_loads (json_dumps v), True)"
    if "real_of_int ttl < e \<and> e < real_of_int (ttl + grace)" for e
    using that by (simp add: cache_get_reachable val sen)
  have miss: "cache_get (t0 + e) (Reachable ?s') k = Inr (PNone, False)"
    if "real_of_int (ttl + grace) < e" for e
    using that by (simp add: cache_get_reachable val sen)
  have s1: "cache_get t (Reachable ?s') k = Inr (json_loads (json_dumps v), False)"
    if "redis_exists t ?s' (k @ '':fresh'')" for t
    using that assms(2) by (simp add: cache_get_reachable val sen)
  have s2: "cache_get t (Reachable ?s') k = Inr (json_loads (json_dumps v), True)"
    if "redis_exists t ?s' k \<and> \<not> redis_exists t ?s' (k @ '':fresh'')" for t
    using that by (simp add: cache_get_reachable val sen redis_exists_def split: if_splits)
  have s3: "cache_get t (Reachable ?s') k = Inr (PNone, False)"
    if "\<not> redis_exists t ?s' k \<and> \<not> redis_exists t ?s' (k @ '':fresh'')" for t
    using that by (simp add: cache_get_reachable val redis_exists_def split: if_splits)
  show ?thesis
    using cache_set_reachable [of grace t0 s k v ttl] stored fresh stale miss
      json_roundtrip [of v] s1 s2 s3
    by blast
qed

theorem C2_cache_set_then_get_witness:
  "cache_set 60 1000 (Reachable []) ''k'' (PDict [(''total'', PInt 3)]) 300
     = Inr (Reachable [(''k'', (DObj [(''total'', DInt 3)], 1360)), (''k:fresh'', (DInt 1, 1300))])
   \<and> cache_get (1000 + 10)
        (Reachable [(''k'', (DObj [(''total'', DInt 3)], 1360)), (''k:fresh'', (DInt 1, 1300))])
        ''k''
      = Inr (PDict [(''total'', PInt 3)], False)
   \<and> cache_get (1000 + 330)
        (Reachable [(''k'', (DObj [(''total'', DInt 3)], 1360)), (''k:fresh'', (DInt 1, 1300))])
        ''k''
      = Inr (PDict [(''total'', PInt 3)], True)
   \<and> cache_get (1000 + 400)
        (Reachable [(''k'', (DObj [(''total'', DInt 3)], 1360)), (''k:fresh'', (DInt 1, 1300))])
        ''k''
      = Inr (PNone, False)"
proof -
  let ?st = "[(''k'', (DObj [(''total'', DInt 3)], 1360)), (''k:fresh'', (DInt 1, 1300))] :: redis"
  let ?v = "PDict [(''total'', PInt 3)]"
  have h1: "(0::int) < 300" by simp
  have h2: "(0::int) \<le> 60" by simp
  have h3: "expire_ok 1000 (300 + 60)" by (simp add: expire_ok_def)
  have st: "cache_set 60 1000 (Reachable []) ''k'' ?v 300 = Inr (Reachable ?st)"
    by (simp add: cache_set_reachable redis_setex_def expire_ok_def)
  from C2_cache_set_then_get [OF h1 h2 h3, of "[]" "''k''" ?v]
  obtain s' where s': "cache_set 60 1000 (Reachable []) ''k'' ?v 300 = Inr (Reachable s')"
    and win: "\<forall>e. (e < real_of_int 300 \<longrightarrow>
                      cache_get (1000 + e) (Reachable s') ''k''
                        = Inr (json_loads (json_dumps ?v), False))
                  \<and> (real_of_int 300 < e \<and> e < real_of_int (300 + 60) \<longrightarrow>
                      cache_get (1000 + e) (Reachable s') ''k''
                        = Inr (json_loads (json_dumps ?v), True))
                  \<and> (real_of_int (300 + 60) < e \<longrightarrow>
                      cache_get (1000 + e) (Reachable s') ''k'' = Inr (PNone, False))"
    by blast
  from s' st have eq: "s' = ?st" by simp
  have "cache_get (1000 + 10) (Reachable ?st) ''k'' = Inr (?v, False)"
    using win [rule_format, of 10] eq by simp
  moreover have "cache_get (1000 + 330) (Reachable ?st) ''k'' = Inr (?v, True)"
    using win [rule_format, of 330] eq by simp
  moreover have "cache_get (1000 + 400) (Reachable ?st) ''k'' = Inr (PNone, False)"
    using win [rule_format, of 400] eq by simp
  ultimately show ?thesis using st by blast
qed

text \<open>
  C9, as the claim states it, fails: with the pool never initialised \<open>get_redis\<close>
  raises \<open>CacheError\<close>, which \<^verbatim>\<open>except RedisError\<close> does not catch.
\<close>

theorem C9_uninitialised_pool_raises:
  "cache_get 0 NoPool ''agg:v2:k'' = Inl CacheError"
  by (simp add: cache_get_def except_RedisError_def try_redis_def get_redis_def)

text \<open>
  C9, amended. With the pool initialised, no cache operation raises, for any key, value,
  ttl and pattern: on an unreachable store \<open>cache_get\<close> is a miss that is not stale,
  \<open>cache_set\<close> and \<open>cache_delete\<close> change nothing and \<open>invalidate_pattern\<close> returns 0;
  on a reachable store each of them returns. With the pool not initialised each of the
  four raises \<open>CacheError\<close> to its caller.
\<close>

theorem C9_cache_ops_absorb_store_errors:
  "cache_get now Unreachable k = Inr (PNone, False)
   \<and> cache_set grace now Unreachable k v ttl = Inr Unreachable
   \<and> cache_delete Unreachable k = Inr Unreachable
   \<and> invalidate_pattern glob now Unreachable pat = Inr (0, Unreachable)
   \<and> \<not> isl (cache_get now (Reachable s) k)
   \<and> \<not> isl (cache_set grace now (Reachable s) k v ttl)
   \<and> \<not> isl (cache_delete (Reachable s) k)
   \<and> \<not> isl (invalidate_pattern glob now (Reachable s) pat)
   \<and> cache_get now NoPool k = Inl CacheError
   \<and> cache_set grace now NoPool k v ttl = Inl CacheError
   \<and> cache_delete NoPool k = Inl CacheError
   \<and> invalidate_pattern glob now NoPool pat = Inl CacheError"
  by (simp add: cache_get_def cache_set_def cache_delete_def invalidate_pattern_def
      except_RedisError_def try_redis_def get_redis_def with_store_def)



text \<open>
  The text \<^verbatim>\<open>null\<close> comes into the store only by \<^verbatim>\<open>cache_set(k, None, ttl)\<close>, a call
  that the program does not make. Were it made, the value read back after the ttl would
  be \<^verbatim>\<open>None\<close>, flagged stale.
\<close>

lemma stored_null_reads_as_stale_none:
  "cache_set 60 0 (Reachable []) ''k'' PNone 30
     = Inr (Reachable [(''k'', (DNull, 90)), (''k:fresh'', (DInt 1, 30))])
   \<and> cache_get 31 (Reachable [(''k'', (DNull, 90)), (''k:fresh'', (DInt 1, 30))]) ''k''
       = Inr (PNone, True)"
  by (simp add: cache_set_reachable cache_get_reachable redis_setex_def expire_ok_def
      redis_get_def redis_exists_def)

section \<open>Reconciler: properties\<close>

lemma varchar_fits: "fits n s \<Longrightarrow> varchar n s = Some s"
  by (simp add: fits_def varchar_def)

lemma flush_new_fits:
  "fits 100 key \<Longrightarrow> fits 500 src \<Longrightarrow>
   flush_new key src ps tbl =
     (case insert_rows key src ps (tbl key) of
        Inl e \<Rightarrow> Inl e
      | Inr rows \<Rightarrow> Inr (tbl(key := rows)))"
  by (cases ps) (simp_all add: flush_new_def varchar_fits split: sum.splits)

lemma upsert_source_fits:
  "fits 100 key \<Longrightarrow> fits 500 src \<Longrightarrow>
   upsert_source cks key src recs tbl =
     (let existing = tbl key in
      case upsert_loop cks recs (existing, [], 0) of
        Inl e \<Rightarrow> Inl e
      | Inr (rows1, to_insert, changed) \<Rightarrow>
          (case insert_rows key src to_insert rows1 of
             Inl e \<Rightarrow> Inl e
           | Inr rows2 \<Rightarrow>
               Inr ((length recs, changed), tbl(key := delete_stale existing recs rows2))))"
  by (simp add: upsert_source_def flush_new_fits Let_def split: sum.splits prod.splits)

lemma fits_posts: "fits 100 ''posts'' \<and> fits 500 ''https://x/posts''"
  by (simp add: fits_def char_len_def continuation_def)

text \<open>
  C8. The stored rows of a source are external id 1 with payload A and external id 2
  with payload B; the fetch is the records with id 1, payload A and id 3, payload C.
  The source key and the URL are ones that the columns of the stored rows take.
  \<open>upsert_source\<close> returns \<open>(2, 1)\<close> when the stored checksum \<open>c1\<close> of row 1 is the
  checksum of the fetched record: row 1 is left as it is, the row for id 3 is appended,
  the row for id 2 is gone, and only the insert is counted. When \<open>c1\<close> differs, row 1
  is rewritten and the count is 2: inserts and updates, never the deletion.
\<close>

theorem C8_reconcile_insert_delete_unchanged:
  assumes "fits 100 k" and "fits 500 src"
  shows "upsert_source cks k src
      [JObj [(''id'', JInt 1), (''payload'', JStr ''A'')],
       JObj [(''id'', JInt 3), (''payload'', JStr ''C'')]]
      (tbl(k := [\<lparr>row_source_key = k, row_source_url = src, external_id = Some 1,
                  payload = JObj [(''id'', JInt 1), (''payload'', JStr ''A'')],
                  checksum = c1\<rparr>,
                 \<lparr>row_source_key = k, row_source_url = src, external_id = Some 2,
                  payload = JObj [(''id'', JInt 2), (''payload'', JStr ''B'')],
                  checksum = c2\<rparr>]))
   = Inr ((2, if c1 = cks (JObj [(''id'', JInt 1), (''payload'', JStr ''A'')]) then 1 else 2),
       tbl(k := [\<lparr>row_source_key = k, row_source_url = src, external_id = Some 1,
                  payload = JObj [(''id'', JInt 1), (''payload'', JStr ''A'')],
                  checksum = cks (JObj [(''id'', JInt 1), (''payload'', JStr ''A'')])\<rparr>,
                 \<lparr>row_source_key = k, row_source_url = src, external_id = Some 3,
                  payload = JObj [(''id'', JInt 3), (''payload'', JStr ''C'')],
                  checksum = cks (JObj [(''id'', JInt 3), (''payload'', JStr ''C'')])\<rparr>]))"
  by (simp add: upsert_source_fits [OF assms] upsert_step_def existing_get_def
      set_existing_def checksum_of_def delete_stale_def stale_ids_def incoming_ids_def
      sql_in_def Let_def)

theorem C8_reconcile_witness:
  "upsert_source (\<lambda>r. ''digest'') ''posts'' ''https://x/posts''
      [JObj [(''id'', JInt 1), (''payload'', JStr ''A'')],
       JObj [(''id'', JInt 3), (''payload'', JStr ''C'')]]
      ((\<lambda>k. [])(''posts'' :=
         [\<lparr>row_source_key = ''posts'', row_source_url = ''https://x/posts'',
           external_id = Some 1,
           payload = JObj [(''id'', JInt 1), (''payload'', JStr ''A'')],
           checksum = ''digest''\<rparr>,
          \<lparr>row_source_key = ''posts'', row_source_url = ''https://x/posts'',
           external_id = Some 2,
           payload = JObj [(''id'', JInt 2), (''payload'', JStr ''B'')],
           checksum = ''digest''\<rparr>]))
   = Inr ((2, 1),
       (\<lambda>k. [])(''posts'' :=
         [\<lparr>row_source_key = ''posts'', row_source_url = ''https://x/posts'',
           external_id = Some 1,
           payload = JObj [(''id'', JInt 1), (''payload'', JStr ''A'')],
           checksum = ''digest''\<rparr>,
          \<lparr>row_source_key = ''posts'', row_source_url = ''https://x/posts'',
           external_id = Some 3,
           payload = JObj [(''id'', JInt 3), (''payload'', JStr ''C'')],
           checksum = ''digest''\<rparr>]))"
proof -
  have f1: "fits 100 ''posts''" and f2: "fits 500 ''https://x/posts''"
    by (simp_all add: fits_def char_len_def continuation_def)
  show ?thesis
    using C8_reconcile_insert_delete_unchanged [OF f1 f2, where cks = "\<lambda>r. ''digest''"
        and ?c1.0 = "''digest''" and ?c2.0 = "''digest''" and tbl = "\<lambda>k. []"]
    by simp
qed

text \<open>
  C3. The store holds one row of source \<^verbatim>\<open>posts\<close> with no external id, written by an
  earlier fetch of the record \<^verbatim>\<open>{"title": "t"}\<close>; the latest fetch is that same
  record. \<open>upsert_source\<close> completes and the source then has two rows for the one
  fetched record: the new one is inserted, and the old one, whose key \<^verbatim>\<open>None\<close> is in
  \<^verbatim>\<open>stale\<close>, is not deleted, because no \<^verbatim>\<open>IN\<close> list matches a NULL external id.
\<close>

theorem C3_row_without_external_id_survives:
  "upsert_source cks ''posts'' ''https://x/posts'' [JObj [(''title'', JStr ''t'')]]
     ((\<lambda>k. [])(''posts'' :=
        [\<lparr>row_source_key = ''posts'', row_source_url = ''https://x/posts'',
          external_id = None, payload = JObj [(''title'', JStr ''t'')],
          checksum = cks (JObj [(''title'', JStr ''t'')])\<rparr>]))
   = Inr ((1, 1), (\<lambda>k. [])(''posts'' :=
        [\<lparr>row_source_key = ''posts'', row_source_url = ''https://x/posts'',
          external_id = None, payload = JObj [(''title'', JStr ''t'')],
          checksum = cks (JObj [(''title'', JStr ''t'')])\<rparr>,
         \<lparr>row_source_key = ''posts'', row_source_url = ''https://x/posts'',
          external_id = None, payload = JObj [(''title'', JStr ''t'')],
          checksum = cks (JObj [(''title'', JStr ''t'')])\<rparr>]))"
  by (simp add: upsert_source_fits fits_posts upsert_step_def existing_get_def checksum_of_def
      delete_stale_def stale_ids_def incoming_ids_def sql_in_def Let_def)

section \<open>Fetch executor: properties\<close>

lemma is_open_other:
  "fst (is_open now u (snd (is_open now v c))) = fst (is_open now u c)"
  by (auto simp: is_open_def FAILURE_THRESHOLD_def split: option.splits)

lemma breaker_checks_answers:
  "fst (breaker_checks now us c) = map (\<lambda>u. fst (is_open now u c)) us"
proof (induction us arbitrary: c)
  case Nil
  then show ?case by simp
next
  case (Cons v us)
  have "fst (breaker_checks now us (snd (is_open now v c)))
          = map (\<lambda>u. fst (is_open now u c)) us"
    using Cons.IH [of "snd (is_open now v c)"] by (simp add: is_open_other)
  then show ?case by (simp add: split_beta)
qed

lemma in_zip_map: "(x, y) \<in> set (zip xs (map f xs)) \<Longrightarrow> y = f x"
  by (induction xs) auto

lemma attempt_fetch_outcome:
  "attempt_fetch mr up t u c = (out, c', n) \<Longrightarrow>
     url out = u \<and> source_key out = source_key_of u \<and> (error out \<noteq> None \<longrightarrow> records out = [])"
  by (auto simp: attempt_fetch_def split: prod.splits sum.splits)

lemma finish_fetches_outcomes:
  "finish_fetches mr up fin pairs c = (outs, c', calls) \<Longrightarrow>
     list_all2 (\<lambda>(u, opn) out. url out = u \<and> source_key out = source_key_of u
                  \<and> (error out \<noteq> None \<longrightarrow> records out = [])
                  \<and> (opn \<longrightarrow> out = rejected u)) pairs outs
     \<and> set calls \<subseteq> fst ` {q \<in> set pairs. \<not> snd q}"
proof (induction pairs arbitrary: c outs c' calls)
  case Nil
  then show ?case by simp
next
  case (Cons q pairs)
  obtain u opn where q: "q = (u, opn)" by (cases q)
  show ?case
  proof (cases opn)
    case True
    with Cons.prems q obtain os where
      r: "finish_fetches mr up fin pairs c = (os, c', calls)" and o: "outs = rejected u # os"
      by (auto split: prod.splits)
    from Cons.IH [OF r] show ?thesis
      using q True o by (auto simp: rejected_def)
  next
    case False
    with Cons.prems q obtain out c1 n os calls' where
      a: "attempt_fetch mr up (fin u) u c = (out, c1, n)"
      and r: "finish_fetches mr up fin pairs c1 = (os, c', calls')"
      and o: "outs = out # os" and cl: "calls = replicate n u @ calls'"
      by (auto split: prod.splits)
    from Cons.IH [OF r] attempt_fetch_outcome [OF a] show ?thesis
      using q False o cl by (auto simp: image_iff)
  qed
qed

text \<open>
  C6. \<open>fetch_sources\<close> is total: for every list of URLs, upstream behaviour and breaker
  state it returns, and its outcomes correspond to the URLs one to one and in order
  (each outcome carries its URL and the source key derived from it). An outcome whose
  \<open>error\<close> is present has no records. For a URL whose breaker answers open at the time
  of the checks, the outcome is the rejection (no records, duration 0, the circuit-open
  message as error) and the URL is not in the log of requests sent.
\<close>

theorem C6_fetch_sources_one_outcome_per_url:
  "case fetch_sources mr up now fin urls c of
     (outs, c', calls) \<Rightarrow>
       list_all2 (\<lambda>u out. url out = u \<and> source_key out = source_key_of u
                     \<and> (error out \<noteq> None \<longrightarrow> records out = [])
                     \<and> (fst (is_open now u c) \<longrightarrow>
                           out = rejected u \<and> duration_ms out = 0 \<and> error out \<noteq> None
                           \<and> u \<notin> set calls)) urls outs"
proof -
  obtain outs c' calls where f: "fetch_sources mr up now fin urls c = (outs, c', calls)"
    by (cases "fetch_sources mr up now fin urls c")
  let ?opens = "map (\<lambda>u. fst (is_open now u c)) urls"
  obtain c1 where b: "breaker_checks now urls c = (?opens, c1)"
    using breaker_checks_answers [of now urls c]
    by (cases "breaker_checks now urls c") simp
  from f b have ff: "finish_fetches mr up fin (zip urls ?opens) c1 = (outs, c', calls)"
    by (simp add: fetch_sources_def)
  from finish_fetches_outcomes [OF ff]
  have rel: "list_all2 (\<lambda>(u, opn) out. url out = u \<and> source_key out = source_key_of u
                  \<and> (error out \<noteq> None \<longrightarrow> records out = [])
                  \<and> (opn \<longrightarrow> out = rejected u)) (zip urls ?opens) outs"
    and calls: "set calls \<subseteq> fst ` {q \<in> set (zip urls ?opens). \<not> snd q}"
    by auto
  have nocall: "u \<notin> set calls" if "fst (is_open now u c)" for u
  proof
    assume "u \<in> set calls"
    with calls obtain q where qin: "q \<in> set (zip urls ?opens)"
      and qn: "\<not> snd q" and qu: "fst q = u" by auto
    have "q = (u, snd q)" using qu by (cases q) simp
    with qin have "(u, snd q) \<in> set (zip urls ?opens)" by metis
    then have "snd q = fst (is_open now u c)" by (rule in_zip_map)
    with qn that show False by simp
  qed
  have len: "length outs = length urls"
    using rel by (auto dest: list_all2_lengthD)
  have "list_all2 (\<lambda>u out. url out = u \<and> source_key out = source_key_of u
                     \<and> (error out \<noteq> None \<longrightarrow> records out = [])
                     \<and> (fst (is_open now u c) \<longrightarrow>
                           out = rejected u \<and> duration_ms out = 0 \<and> error out \<noteq> None
                           \<and> u \<notin> set calls)) urls outs"
  proof (rule list_all2_all_nthI)
    show "length urls = length outs" using len by simp
  next
    fix i assume i: "i < length urls"
    from rel i len have
      "(\<lambda>(u, opn) out. url out = u \<and> source_key out = source_key_of u
                  \<and> (error out \<noteq> None \<longrightarrow> records out = [])
                  \<and> (opn \<longrightarrow> out = rejected u)) (zip urls ?opens ! i) (outs ! i)"
      by (auto simp: list_all2_conv_all_nth)
    with i show "url (outs ! i) = urls ! i \<and> source_key (outs ! i) = source_key_of (urls ! i)
                     \<and> (error (outs ! i) \<noteq> None \<longrightarrow> records (outs ! i) = [])
                     \<and> (fst (is_open now (urls ! i) c) \<longrightarrow>
                           outs ! i = rejected (urls ! i) \<and> duration_ms (outs ! i) = 0
                           \<and> error (outs ! i) \<noteq> None
                           \<and> urls ! i \<notin> set calls)"
      using nocall [of "urls ! i"] by (auto simp: rejected_def)
  qed
  with f show ?thesis by simp
qed

theorem C6_fetch_sources_witness:
  "fst (is_open 10 ''https://x/b/'' [''https://x/b/'' \<mapsto> \<lparr>failures = 3, opened_at = 0\<rparr>])
   \<and> fst (fetch_sources 3 (\<lambda>u n. OtherFailure ''boom'') 10 (\<lambda>u. 11)
           [''https://x/a'', ''https://x/b/'']
           [''https://x/b/'' \<mapsto> \<lparr>failures = 3, opened_at = 0\<rparr>])
       = [\<lparr>url = ''https://x/a'', source_key = ''a'', records = [], duration_ms = 0,
           error = Some ''boom''\<rparr>,
          rejected ''https://x/b/'']
   \<and> ''https://x/b/'' \<notin> set (snd (snd (fetch_sources 3 (\<lambda>u n. OtherFailure ''boom'') 10 (\<lambda>u. 11)
           [''https://x/a'', ''https://x/b/'']
           [''https://x/b/'' \<mapsto> \<lparr>failures = 3, opened_at = 0\<rparr>])))"
proof -
  let ?c = "[''https://x/b/'' \<mapsto> \<lparr>failures = 3, opened_at = 0\<rparr>] :: circuit"
  let ?f = "fetch_sources 3 (\<lambda>u n. OtherFailure ''boom'') 10 (\<lambda>u. 11)
              [''https://x/a'', ''https://x/b/''] ?c"
  have op: "fst (is_open 10 ''https://x/b/'' ?c)"
    by (simp add: is_open_def FAILURE_THRESHOLD_def RECOVERY_SECONDS_def)
  have cl: "\<not> fst (is_open 10 ''https://x/a'' ?c)"
    by (simp add: is_open_def)
  obtain outs c' calls where f: "?f = (outs, c', calls)" by (cases ?f)
  from C6_fetch_sources_one_outcome_per_url [where mr = 3 and up = "\<lambda>u n. OtherFailure ''boom''" and now = 10
                  and fin = "\<lambda>u. 11" and urls = "[''https://x/a'', ''https://x/b/'']"
                  and c = ?c] f op
  have "\<exists>oa. outs = [oa, rejected ''https://x/b/''] \<and> ''https://x/b/'' \<notin> set calls"
    by (auto simp: list_all2_Cons1)
  moreover have "fst ?f ! 0 = \<lparr>url = ''https://x/a'', source_key = ''a'', records = [],
                               duration_ms = 0, error = Some ''boom''\<rparr>"
    by (simp add: fetch_sources_def is_open_def FAILURE_THRESHOLD_def RECOVERY_SECONDS_def
        attempt_fetch_def fetch_one_def numeral_2_eq_2 source_key_of_def split_beta)
  ultimately show ?thesis using op f by auto
qed

section \<open>Reconciler: rows in step with a fetch\<close>

subsection \<open>Updating and finding the first match\<close>

lemma find_upd_first_same:
  "(\<And>x. P x \<Longrightarrow> P (f x)) \<Longrightarrow> find P (upd_first P f xs) = map_option f (find P xs)"
  by (induction xs) auto

lemma find_upd_first_other:
  "(\<And>x. Q (f x) = Q x) \<Longrightarrow> (\<And>x. P x \<Longrightarrow> \<not> Q x) \<Longrightarrow>
     find Q (upd_first P f xs) = find Q xs"
  by (induction xs) auto

lemma map_upd_first: "(\<And>x. g (f x) = g x) \<Longrightarrow> map g (upd_first P f xs) = map g xs"
  by (induction xs) auto

lemma find_app:
  "find P (xs @ ys) = (case find P xs of Some x \<Rightarrow> Some x | None \<Rightarrow> find P ys)"
  by (induction xs) auto

lemma find_filter_superset:
  "(\<And>x. P x \<Longrightarrow> Q x) \<Longrightarrow> find P (filter Q xs) = find P xs"
  by (induction xs) auto

subsection \<open>existing_get and set_existing\<close>

lemma py_eq_JInt [simp]: "py_eq (JInt n) e = (e = Some n)"
  by (cases e) auto

lemma external_id_set_existing [simp]:
  "map external_id (set_existing j r c rows) = map external_id rows"
proof -
  let ?u = "upd_first (\<lambda>row. py_eq j (external_id row))
              (\<lambda>row. row\<lparr>payload := r, checksum := c\<rparr>) (rev rows)"
  have "map external_id ?u = map external_id (rev rows)"
    by (rule map_upd_first) simp
  then have "rev (map external_id ?u) = rev (map external_id (rev rows))" by simp
  then show ?thesis by (simp add: set_existing_def rev_map)
qed

lemma existing_get_set_same:
  "existing_get (set_existing j r c rows) j =
     map_option (\<lambda>row. row\<lparr>payload := r, checksum := c\<rparr>) (existing_get rows j)"
  by (simp add: existing_get_def set_existing_def find_upd_first_same)

lemma existing_get_set_other:
  assumes "n \<noteq> m"
  shows "existing_get (set_existing (JInt n) r c rows) (JInt m) = existing_get rows (JInt m)"
proof -
  have "find (\<lambda>row. external_id row = Some m)
          (upd_first (\<lambda>row. external_id row = Some n)
             (\<lambda>row. row\<lparr>payload := r, checksum := c\<rparr>) (rev rows))
        = find (\<lambda>row. external_id row = Some m) (rev rows)"
    by (rule find_upd_first_other) (use assms in auto)
  then show ?thesis by (simp add: existing_get_def set_existing_def)
qed

lemma existing_get_None:
  "(existing_get rows (JInt n) = None) = (Some n \<notin> set (map external_id rows))"
  by (force simp: existing_get_def find_None_iff)

lemma find_SomeD: "find P xs = Some x \<Longrightarrow> x \<in> set xs \<and> P x"
  by (induction xs) (auto split: if_splits)

lemma existing_get_SomeD:
  "existing_get rows j = Some y \<Longrightarrow> y \<in> set rows \<and> py_eq j (external_id y)"
  using find_SomeD [of "\<lambda>row. py_eq j (external_id row)" "rev rows" y]
  by (simp add: existing_get_def)

lemma existing_get_append:
  "existing_get (rows @ news) j =
     (case existing_get news j of Some x \<Rightarrow> Some x | None \<Rightarrow> existing_get rows j)"
  by (simp add: existing_get_def find_app split: option.splits)

lemma existing_get_filter:
  "(\<And>row. py_eq j (external_id row) \<Longrightarrow> Q row) \<Longrightarrow>
     existing_get (filter Q rows) j = existing_get rows j"
  by (simp add: existing_get_def rev_filter find_filter_superset)

subsection \<open>One step of the loop\<close>

lemma keyed_id: "keyed r \<Longrightarrow> \<exists>n. get_id r = JInt n \<and> n \<noteq> 0
      \<and> - 2147483648 \<le> n \<and> n \<le> 2147483647"
  by (auto simp: keyed_def split: json.splits)

lemma keyed_is_dict: "keyed r \<Longrightarrow> is_dict r"
  by (cases r) (auto simp: keyed_def)

lemma keyed_checksum: "keyed r \<Longrightarrow> checksum_of cks r = cks r"
  by (simp add: checksum_of_def keyed_is_dict)

lemma step_no_id:
  "get_id r = JNull \<Longrightarrow>
     upsert_step cks r (rows, ti, ch) = Inr (rows, ti @ [(JNull, r, checksum_of cks r)], ch + 1)"
  by (simp add: upsert_step_def)

lemma step_new:
  "get_id r = JInt n \<Longrightarrow> Some n \<notin> set (map external_id rows) \<Longrightarrow>
     upsert_step cks r (rows, ti, ch) = Inr (rows, ti @ [(JInt n, r, checksum_of cks r)], ch + 1)"
  using existing_get_None [of rows n] by (simp add: upsert_step_def Let_def)

lemma step_known:
  "get_id r = JInt n \<Longrightarrow> n \<noteq> 0 \<Longrightarrow> existing_get rows (JInt n) = Some row \<Longrightarrow>
     upsert_step cks r (rows, ti, ch) =
       Inr (if checksum row \<noteq> checksum_of cks r
            then (set_existing (JInt n) r (checksum_of cks r) rows, ti, ch + 1)
            else (rows, ti, ch))"
  by (simp add: upsert_step_def Let_def)

subsection \<open>The loop on rows that are in step\<close>

lemma loop_in_step:
  "list_all keyed recs \<Longrightarrow>
   list_all (\<lambda>r. case existing_get rows (get_id r) of
                       None \<Rightarrow> False | Some row \<Rightarrow> checksum row = cks r) recs \<Longrightarrow>
   upsert_loop cks recs (rows, ti, ch) = Inr (rows, ti, ch)"
proof (induction recs)
  case Nil
  then show ?case by simp
next
  case (Cons r recs)
  from Cons.prems obtain n where n: "get_id r = JInt n" "n \<noteq> 0" and k: "keyed r"
    using keyed_id by auto
  from Cons.prems n obtain row where row: "existing_get rows (JInt n) = Some row"
    "checksum row = cks r" by (auto split: option.splits)
  have "upsert_step cks r (rows, ti, ch) = Inr (rows, ti, ch)"
    using step_known [OF n row(1), where cks = cks and ti = ti and ch = ch] row(2) k
    by (simp add: keyed_checksum)
  with Cons show ?case by simp
qed

subsection \<open>The loop on an insertable list\<close>

lemma existing_get_None_cong:
  "map external_id rows1 = map external_id rows \<Longrightarrow>
     (existing_get rows1 (JInt n) = None) = (existing_get rows (JInt n) = None)"
  by (simp add: existing_get_None)

lemma pending_of_cong:
  assumes "map external_id rows1 = map external_id rows"
      and "list_all (\<lambda>r. get_id r = JNull \<or> keyed r) recs"
  shows "pending_of cks rows1 recs = pending_of cks rows recs"
proof -
  have "filter (\<lambda>r. get_id r = JNull \<or> existing_get rows1 (get_id r) = None) recs
      = filter (\<lambda>r. get_id r = JNull \<or> existing_get rows (get_id r) = None) recs"
  proof (rule filter_cong [OF refl])
    fix r assume "r \<in> set recs"
    with assms(2) have "get_id r = JNull \<or> keyed r" by (simp add: list_all_iff)
    then consider "get_id r = JNull" | n where "get_id r = JInt n"
      using keyed_id [of r] by blast
    then show "(get_id r = JNull \<or> existing_get rows1 (get_id r) = None)
             = (get_id r = JNull \<or> existing_get rows (get_id r) = None)"
    proof cases
      case 1
      then show ?thesis by simp
    next
      case 2
      then show ?thesis using existing_get_None_cong [OF assms(1), of n] by simp
    qed
  qed
  then show ?thesis by (simp add: pending_of_def)
qed

lemma loop_insertable:
  assumes "list_all (\<lambda>r. get_id r = JNull \<or> keyed r) recs"
      and "distinct (filter (\<lambda>j. j \<noteq> JNull) (map get_id recs))"
  shows "\<exists>rows' ch'.
           upsert_loop cks recs (rows, ti, ch) = Inr (rows', ti @ pending_of cks rows recs, ch')
         \<and> map external_id rows' = map external_id rows
         \<and> (\<forall>r \<in> set recs. keyed r \<longrightarrow> existing_get rows (get_id r) \<noteq> None \<longrightarrow>
               (\<exists>row. existing_get rows' (get_id r) = Some row \<and> checksum row = cks r))
         \<and> (\<forall>n. JInt n \<notin> set (map get_id recs) \<longrightarrow>
               existing_get rows' (JInt n) = existing_get rows (JInt n))"
  using assms
proof (induction recs arbitrary: rows ti ch)
  case Nil
  then show ?case by (simp add: pending_of_def)
next
  case (Cons r recs)
  have ok: "list_all (\<lambda>r. get_id r = JNull \<or> keyed r) recs"
    and dist: "distinct (filter (\<lambda>j. j \<noteq> JNull) (map get_id recs))"
    using Cons.prems by (auto split: if_splits)
  consider (noid) "get_id r = JNull"
    | (new) n where "get_id r = JInt n" "keyed r" "existing_get rows (JInt n) = None"
    | (known) n row where "get_id r = JInt n" "keyed r" "existing_get rows (JInt n) = Some row"
    using Cons.prems(1) keyed_id [of r] by (cases "existing_get rows (get_id r)") auto
  then show ?case
  proof cases
    case noid
    from Cons.IH [OF ok dist, of rows "ti @ [(JNull, r, checksum_of cks r)]" "ch + 1"]
    obtain rows' ch' where
      l: "upsert_loop cks recs (rows, ti @ [(JNull, r, checksum_of cks r)], ch + 1)
            = Inr (rows', (ti @ [(JNull, r, checksum_of cks r)]) @ pending_of cks rows recs, ch')"
      and e: "map external_id rows' = map external_id rows"
      and g: "\<forall>r \<in> set recs. keyed r \<longrightarrow> existing_get rows (get_id r) \<noteq> None \<longrightarrow>
               (\<exists>row. existing_get rows' (get_id r) = Some row \<and> checksum row = cks r)"
      and f: "\<forall>n. JInt n \<notin> set (map get_id recs) \<longrightarrow>
               existing_get rows' (JInt n) = existing_get rows (JInt n)"
      by blast
    have p: "pending_of cks rows (r # recs) = (JNull, r, checksum_of cks r) # pending_of cks rows recs"
      using noid by (simp add: pending_of_def)
    have nk: "\<not> keyed r" using noid by (simp add: keyed_def)
    show ?thesis
      using l e g f p nk noid by (simp add: step_no_id)
  next
    case new
    have notin: "Some n \<notin> set (map external_id rows)"
      using new(3) by (simp add: existing_get_None)
    from Cons.IH [OF ok dist, of rows "ti @ [(JInt n, r, checksum_of cks r)]" "ch + 1"]
    obtain rows' ch' where
      l: "upsert_loop cks recs (rows, ti @ [(JInt n, r, checksum_of cks r)], ch + 1)
            = Inr (rows', (ti @ [(JInt n, r, checksum_of cks r)]) @ pending_of cks rows recs, ch')"
      and e: "map external_id rows' = map external_id rows"
      and g: "\<forall>r \<in> set recs. keyed r \<longrightarrow> existing_get rows (get_id r) \<noteq> None \<longrightarrow>
               (\<exists>row. existing_get rows' (get_id r) = Some row \<and> checksum row = cks r)"
      and f: "\<forall>n. JInt n \<notin> set (map get_id recs) \<longrightarrow>
               existing_get rows' (JInt n) = existing_get rows (JInt n)"
      by blast
    have p: "pending_of cks rows (r # recs) = (JInt n, r, checksum_of cks r) # pending_of cks rows recs"
      using new by (simp add: pending_of_def)
    show ?thesis
      using l e g f p new by (simp add: step_new [OF new(1) notin])
  next
    case known
    let ?c = "checksum_of cks r"
    let ?rows1 = "if checksum row \<noteq> ?c then set_existing (JInt n) r ?c rows else rows"
    let ?ch1 = "if checksum row \<noteq> ?c then ch + 1 else ch"
    have n0: "n \<noteq> 0" using known(1,2) keyed_id [of r] by auto
    have st: "upsert_step cks r (rows, ti, ch) = Inr (?rows1, ti, ?ch1)"
      using step_known [OF known(1) n0 known(3), where cks = cks and ti = ti and ch = ch]
      by simp
    have e1: "map external_id ?rows1 = map external_id rows" by simp
    from Cons.IH [OF ok dist, of ?rows1 ti ?ch1]
    obtain rows' ch' where
      l: "upsert_loop cks recs (?rows1, ti, ?ch1) = Inr (rows', ti @ pending_of cks ?rows1 recs, ch')"
      and e: "map external_id rows' = map external_id ?rows1"
      and g: "\<forall>r \<in> set recs. keyed r \<longrightarrow> existing_get ?rows1 (get_id r) \<noteq> None \<longrightarrow>
               (\<exists>row. existing_get rows' (get_id r) = Some row \<and> checksum row = cks r)"
      and f: "\<forall>n. JInt n \<notin> set (map get_id recs) \<longrightarrow>
               existing_get rows' (JInt n) = existing_get ?rows1 (JInt n)"
      by blast
    have p1: "pending_of cks ?rows1 recs = pending_of cks rows recs"
      by (rule pending_of_cong [OF e1 ok])
    have p: "pending_of cks rows (r # recs) = pending_of cks rows recs"
      using known by (simp add: pending_of_def)
    have loop: "upsert_loop cks (r # recs) (rows, ti, ch)
                  = Inr (rows', ti @ pending_of cks rows (r # recs), ch')"
      using st l p1 p by simp
    have ext: "map external_id rows' = map external_id rows"
      using e e1 by simp
    have nfresh: "JInt n \<notin> set (map get_id recs)"
      using Cons.prems(2) known(1) by auto
    have r1: "\<exists>row1. existing_get ?rows1 (JInt n) = Some row1 \<and> checksum row1 = cks r"
      using known(2,3) by (auto simp: existing_get_set_same keyed_checksum)
    have here: "\<exists>row'. existing_get rows' (get_id r) = Some row' \<and> checksum row' = cks r"
      using r1 f nfresh known(1) by auto
    have others: "\<exists>row'. existing_get rows' (get_id q) = Some row' \<and> checksum row' = cks q"
      if q1: "q \<in> set recs" and q2: "keyed q" and q3: "existing_get rows (get_id q) \<noteq> None"
      for q
    proof -
      obtain m where m: "get_id q = JInt m" using q2 keyed_id by blast
      have "existing_get ?rows1 (get_id q) \<noteq> None"
        using q3 m existing_get_None_cong [OF e1, of m] by simp
      with g q1 q2 show ?thesis by blast
    qed
    have frame: "existing_get rows' (JInt m) = existing_get rows (JInt m)"
      if m1: "JInt m \<notin> set (map get_id (r # recs))" for m
    proof -
      from m1 known(1) have mn: "n \<noteq> m" and "JInt m \<notin> set (map get_id recs)" by auto
      with f have "existing_get rows' (JInt m) = existing_get ?rows1 (JInt m)" by blast
      also have "\<dots> = existing_get rows (JInt m)"
        using mn by (simp add: existing_get_set_other)
      finally show ?thesis .
    qed
    show ?thesis
      using loop ext here others frame by auto
  qed
qed

subsection \<open>The flush\<close>

lemma insert_rows_ok:
  assumes "\<forall>p \<in> set ps. fst p = JNull \<or>
             (\<exists>n. fst p = JInt n \<and> - 2147483648 \<le> n \<and> n \<le> 2147483647
                  \<and> Some n \<notin> set (map external_id rows))"
      and "distinct (filter (\<lambda>j. j \<noteq> JNull) (map fst ps))"
  shows "insert_rows key src ps rows = Inr (rows @ map (new_row key src) ps)"
  using assms
proof (induction ps arbitrary: rows)
  case Nil
  then show ?case by simp
next
  case (Cons p ps)
  obtain j r c where p: "p = (j, r, c)" by (cases p)
  have dist: "distinct (filter (\<lambda>j. j \<noteq> JNull) (map fst ps))"
    using Cons.prems(2) by (auto split: if_splits)
  from Cons.prems(1) p consider "j = JNull"
    | n where "j = JInt n" "- 2147483648 \<le> n" "n \<le> 2147483647"
        "Some n \<notin> set (map external_id rows)"
    by auto
  then show ?case
  proof cases
    case 1
    have pre: "\<forall>q \<in> set ps. fst q = JNull \<or>
             (\<exists>n. fst q = JInt n \<and> - 2147483648 \<le> n \<and> n \<le> 2147483647
                  \<and> Some n \<notin> set (map external_id (rows @ [new_row key src p])))"
      using Cons.prems(1) p 1 by (auto simp: new_row_def)
    from Cons.IH [OF pre dist] show ?thesis
      using p 1 by (simp add: new_row_def)
  next
    case 2
    have fresh: "JInt n \<notin> set (map fst ps)"
      using Cons.prems(2) p 2(1) by auto
    have pre: "\<forall>q \<in> set ps. fst q = JNull \<or>
             (\<exists>m. fst q = JInt m \<and> - 2147483648 \<le> m \<and> m \<le> 2147483647
                  \<and> Some m \<notin> set (map external_id (rows @ [new_row key src p])))"
    proof
      fix q assume q: "q \<in> set ps"
      with Cons.prems(1) consider "fst q = JNull"
        | m where "fst q = JInt m" "- 2147483648 \<le> m" "m \<le> 2147483647"
            "Some m \<notin> set (map external_id rows)"
        by auto
      then show "fst q = JNull \<or>
             (\<exists>m. fst q = JInt m \<and> - 2147483648 \<le> m \<and> m \<le> 2147483647
                  \<and> Some m \<notin> set (map external_id (rows @ [new_row key src p])))"
      proof cases
        case 1
        then show ?thesis by simp
      next
        case (2 m)
        have "m \<noteq> n" using fresh q 2(1) by force
        then show ?thesis using 2 p \<open>j = JInt n\<close> by (simp add: new_row_def)
      qed
    qed
    from Cons.IH [OF pre dist] show ?thesis
      using p 2 by (simp add: new_row_def)
  qed
qed

lemma pending_of_entries:
  assumes "list_all (\<lambda>r. get_id r = JNull \<or> keyed r) recs"
  shows "\<forall>p \<in> set (pending_of cks rows recs). fst p = JNull \<or>
             (\<exists>n. fst p = JInt n \<and> - 2147483648 \<le> n \<and> n \<le> 2147483647
                  \<and> Some n \<notin> set (map external_id rows))"
proof
  fix p assume "p \<in> set (pending_of cks rows recs)"
  then obtain r where r: "r \<in> set recs" "p = (get_id r, r, checksum_of cks r)"
    "get_id r = JNull \<or> existing_get rows (get_id r) = None"
    by (auto simp: pending_of_def)
  from assms r(1) have "get_id r = JNull \<or> keyed r" by (simp add: list_all_iff)
  then show "fst p = JNull \<or>
             (\<exists>n. fst p = JInt n \<and> - 2147483648 \<le> n \<and> n \<le> 2147483647
                  \<and> Some n \<notin> set (map external_id rows))"
  proof
    assume "get_id r = JNull" then show ?thesis using r(2) by simp
  next
    assume "keyed r"
    then obtain n where n: "get_id r = JInt n" "- 2147483648 \<le> n" "n \<le> 2147483647"
      using keyed_id by blast
    with r(3) have "Some n \<notin> set (map external_id rows)"
      by (simp add: existing_get_None)
    with n r(2) show ?thesis by simp
  qed
qed

lemma map_fst_pending_of:
  "map fst (pending_of cks rows recs) =
     map get_id (filter (\<lambda>r. get_id r = JNull \<or> existing_get rows (get_id r) = None) recs)"
  by (simp add: pending_of_def comp_def)

lemma distinct_filter_map_filter:
  "distinct (filter P (map f xs)) \<Longrightarrow> distinct (filter P (map f (filter Q xs)))"
  by (induction xs) auto

lemma pending_of_distinct:
  "distinct (filter (\<lambda>j. j \<noteq> JNull) (map get_id recs)) \<Longrightarrow>
     distinct (filter (\<lambda>j. j \<noteq> JNull) (map fst (pending_of cks rows recs)))"
  by (simp add: map_fst_pending_of distinct_filter_map_filter)

lemma upsert_source_insertable:
  assumes "insertable recs" and "fits 100 key" and "fits 500 src"
  shows "\<exists>rows' ch.
           upsert_source cks key src recs tbl =
             Inr ((length recs, ch),
                  tbl(key := delete_stale (tbl key) recs
                               (rows' @ map (new_row key src) (pending_of cks (tbl key) recs))))
         \<and> map external_id rows' = map external_id (tbl key)
         \<and> (\<forall>r \<in> set recs. keyed r \<longrightarrow> existing_get (tbl key) (get_id r) \<noteq> None \<longrightarrow>
               (\<exists>row. existing_get rows' (get_id r) = Some row \<and> checksum row = cks r))"
proof -
  from assms(1) have ok: "list_all (\<lambda>r. get_id r = JNull \<or> keyed r) recs"
    and dist: "distinct (filter (\<lambda>j. j \<noteq> JNull) (map get_id recs))"
    by (simp_all add: insertable_def)
  from loop_insertable [OF ok dist, of cks "tbl key" "[]" 0]
  obtain rows' ch where
    l: "upsert_loop cks recs (tbl key, [], 0) = Inr (rows', pending_of cks (tbl key) recs, ch)"
    and e: "map external_id rows' = map external_id (tbl key)"
    and g: "\<forall>r \<in> set recs. keyed r \<longrightarrow> existing_get (tbl key) (get_id r) \<noteq> None \<longrightarrow>
               (\<exists>row. existing_get rows' (get_id r) = Some row \<and> checksum row = cks r)"
    by auto
  have pre: "\<forall>p \<in> set (pending_of cks (tbl key) recs). fst p = JNull \<or>
             (\<exists>n. fst p = JInt n \<and> - 2147483648 \<le> n \<and> n \<le> 2147483647
                  \<and> Some n \<notin> set (map external_id rows'))"
    using pending_of_entries [OF ok, of cks "tbl key"] e by simp
  have ins: "insert_rows key src (pending_of cks (tbl key) recs) rows'
               = Inr (rows' @ map (new_row key src) (pending_of cks (tbl key) recs))"
    by (rule insert_rows_ok [OF pre pending_of_distinct [OF dist]])
  have "upsert_source cks key src recs tbl =
             Inr ((length recs, ch),
                  tbl(key := delete_stale (tbl key) recs
                               (rows' @ map (new_row key src) (pending_of cks (tbl key) recs))))"
    using l ins by (simp add: upsert_source_fits [OF assms(2,3)] Let_def)
  with e g show ?thesis by blast
qed

subsection \<open>The delete\<close>

lemma in_set_mapD: "y \<in> set (map f xs) \<Longrightarrow> \<exists>x \<in> set xs. f x = y"
  by auto

lemma keyed_truthy: "keyed r \<Longrightarrow> truthy (get_id r)"
  using keyed_id [of r] by auto

lemma incoming_keyed: "list_all keyed recs \<Longrightarrow> incoming_ids recs = map get_id recs"
proof -
  assume "list_all keyed recs"
  then have "filter (\<lambda>r. is_dict r \<and> truthy (get_id r)) recs = recs"
    by (auto simp: list_all_iff filter_id_conv keyed_is_dict keyed_truthy)
  then show ?thesis by (simp add: incoming_ids_def)
qed

lemma list_ex_keyed:
  assumes "list_all keyed recs"
  shows "list_ex (\<lambda>j. py_eq j (Some n)) (map get_id recs) = (JInt n \<in> set (map get_id recs))"
proof
  assume "list_ex (\<lambda>j. py_eq j (Some n)) (map get_id recs)"
  then obtain r where r: "r \<in> set recs" "py_eq (get_id r) (Some n)"
    by (auto simp: list_ex_iff)
  with assms have "keyed r" by (simp add: list_all_iff)
  then obtain k where "get_id r = JInt k" using keyed_id by blast
  with r show "JInt n \<in> set (map get_id recs)" by force
next
  assume "JInt n \<in> set (map get_id recs)"
  then have "\<exists>j \<in> set (map get_id recs). py_eq j (Some n)"
    by (rule bexI [rotated]) simp
  then show "list_ex (\<lambda>j. py_eq j (Some n)) (map get_id recs)"
    by (simp only: list_ex_iff)
qed

lemma stale_keyed:
  "list_all keyed recs \<Longrightarrow>
     (Some n \<in> set (stale_ids existing recs)) =
       (Some n \<in> set (map external_id existing) \<and> JInt n \<notin> set (map get_id recs))"
  by (auto simp: stale_ids_def incoming_keyed list_ex_keyed)

lemma delete_stale_subset: "set (delete_stale existing recs rows) \<subseteq> set rows"
  by (auto simp: delete_stale_def Let_def)

lemma delete_stale_keeps:
  assumes "list_all keyed recs" and "JInt n \<in> set (map get_id recs)"
  shows "existing_get (delete_stale existing recs rows) (JInt n) = existing_get rows (JInt n)"
proof -
  have "existing_get (filter (\<lambda>row. \<not> sql_in (external_id row) (stale_ids existing recs)) rows)
          (JInt n) = existing_get rows (JInt n)"
  proof (rule existing_get_filter)
    fix row assume "py_eq (JInt n) (external_id row)"
    then have "external_id row = Some n" by simp
    then show "\<not> sql_in (external_id row) (stale_ids existing recs)"
      using assms by (simp add: sql_in_def stale_keyed)
  qed
  then show ?thesis by (simp add: delete_stale_def Let_def)
qed

lemma delete_stale_removes:
  assumes "list_all keyed recs"
      and "row \<in> set (delete_stale existing recs rows)"
      and "external_id row = Some m"
      and "Some m \<in> set (map external_id existing)"
  shows "JInt m \<in> set (map get_id recs)"
proof (rule ccontr)
  assume no: "JInt m \<notin> set (map get_id recs)"
  have st: "Some m \<in> set (stale_ids existing recs)"
    using assms(1,4) no by (simp add: stale_keyed)
  have ne: "existing \<noteq> []" using assms(4) by auto
  have ns: "stale_ids existing recs \<noteq> []" using st by auto
  have "delete_stale existing recs rows
          = filter (\<lambda>row. \<not> sql_in (external_id row) (stale_ids existing recs)) rows"
    using ne ns by (simp add: delete_stale_def Let_def)
  with assms(2) have "\<not> sql_in (external_id row) (stale_ids existing recs)" by simp
  with assms(3) st show False by (simp add: sql_in_def)
qed

lemma delete_stale_in_step:
  assumes "list_all keyed recs"
      and "list_all (\<lambda>row. case external_id row of
                          None \<Rightarrow> True
                        | Some n \<Rightarrow> JInt n \<in> set (map get_id recs)) rows"
  shows "delete_stale existing recs rows = rows"
proof -
  have "filter (\<lambda>row. \<not> sql_in (external_id row) (stale_ids existing recs)) rows = rows"
    unfolding filter_id_conv
  proof
    fix row assume "row \<in> set rows"
    with assms(2) have c: "case external_id row of None \<Rightarrow> True
                           | Some n \<Rightarrow> JInt n \<in> set (map get_id recs)"
      by (simp add: list_all_iff)
    show "\<not> sql_in (external_id row) (stale_ids existing recs)"
    proof (cases "external_id row")
      case None
      then show ?thesis by (simp add: sql_in_def)
    next
      case (Some n)
      with c have "JInt n \<in> set (map get_id recs)" by simp
      with Some assms(1) show ?thesis by (simp add: sql_in_def stale_keyed)
    qed
  qed
  then show ?thesis by (simp add: delete_stale_def Let_def)
qed

subsection \<open>upsert_source on a well keyed list\<close>

lemma well_keyed_insertable: "well_keyed recs \<Longrightarrow> insertable recs"
  by (auto simp: well_keyed_def insertable_def list_all_iff distinct_map_filter)

lemma upsert_source_in_step:
  assumes "well_keyed recs" and "in_step cks (tbl key) recs"
  shows "upsert_source cks key src recs tbl = Inr ((length recs, 0), tbl)"
proof -
  from assms(1) have k: "list_all keyed recs" by (simp add: well_keyed_def)
  from assms(2) have
    a: "list_all (\<lambda>r. case existing_get (tbl key) (get_id r) of
                       None \<Rightarrow> False | Some row \<Rightarrow> checksum row = cks r) recs"
    and b: "list_all (\<lambda>row. case external_id row of
                          None \<Rightarrow> True
                        | Some n \<Rightarrow> JInt n \<in> set (map get_id recs)) (tbl key)"
    by (simp_all add: in_step_def)
  have l: "upsert_loop cks recs (tbl key, [], 0) = Inr (tbl key, [], 0)"
    by (rule loop_in_step [OF k a])
  have d: "delete_stale (tbl key) recs (tbl key) = tbl key"
    by (rule delete_stale_in_step [OF k b])
  show ?thesis using l d by (simp add: upsert_source_def flush_new_def Let_def)
qed

lemma upsert_source_well_keyed:
  assumes "well_keyed recs" and "fits 100 key" and "fits 500 src"
  shows "\<exists>ch tbl'. upsert_source cks key src recs tbl = Inr ((length recs, ch), tbl')
           \<and> in_step cks (tbl' key) recs \<and> (\<forall>k. k \<noteq> key \<longrightarrow> tbl' k = tbl k)"
proof -
  from assms(1) have k: "list_all keyed recs" and dist: "distinct (map get_id recs)"
    by (simp_all add: well_keyed_def)
  have ok: "list_all (\<lambda>r. get_id r = JNull \<or> keyed r) recs"
    using k by (simp add: list_all_iff)
  let ?old = "tbl key"
  let ?pend = "pending_of cks ?old recs"
  let ?news = "map (new_row key src) ?pend"
  from upsert_source_insertable [OF well_keyed_insertable [OF assms(1)] assms(2,3), of cks tbl]
  obtain rows' ch where
    u: "upsert_source cks key src recs tbl =
          Inr ((length recs, ch), tbl(key := delete_stale ?old recs (rows' @ ?news)))"
    and e: "map external_id rows' = map external_id ?old"
    and g: "\<forall>r \<in> set recs. keyed r \<longrightarrow> existing_get ?old (get_id r) \<noteq> None \<longrightarrow>
               (\<exists>row. existing_get rows' (get_id r) = Some row \<and> checksum row = cks r)"
    by blast
  let ?rows3 = "delete_stale ?old recs (rows' @ ?news)"
  \<comment> \<open>what a new row is\<close>
  have news: "\<exists>r n. r \<in> set recs \<and> get_id r = JInt n \<and> existing_get ?old (JInt n) = None
                  \<and> y = new_row key src (JInt n, r, cks r) \<and> external_id y = Some n"
    if y: "y \<in> set ?news" for y
  proof -
    from y obtain r where r: "r \<in> set recs" "y = new_row key src (get_id r, r, checksum_of cks r)"
      "get_id r = JNull \<or> existing_get ?old (get_id r) = None"
      by (auto simp: pending_of_def)
    from k r(1) have kr: "keyed r" by (simp add: list_all_iff)
    then obtain n where n: "get_id r = JInt n" using keyed_id by blast
    with r kr show ?thesis by (auto simp: new_row_def keyed_checksum)
  qed
  have part1: "case existing_get ?rows3 (get_id r) of
                 None \<Rightarrow> False | Some row \<Rightarrow> checksum row = cks r"
    if r: "r \<in> set recs" for r
  proof -
    from k r have kr: "keyed r" by (simp add: list_all_iff)
    then obtain n where n: "get_id r = JInt n" using keyed_id by blast
    have inc: "JInt n \<in> set (map get_id recs)" using r n by force
    have eq: "existing_get ?rows3 (JInt n) =
                (case existing_get ?news (JInt n) of
                   Some x \<Rightarrow> Some x | None \<Rightarrow> existing_get rows' (JInt n))"
      by (simp add: delete_stale_keeps [OF k inc] existing_get_append)
    show ?thesis
    proof (cases "existing_get ?old (JInt n)")
      case (Some old_row)
      have "Some n \<notin> set (map external_id ?news)"
      proof
        assume "Some n \<in> set (map external_id ?news)"
        from in_set_mapD [OF this]
        obtain y where y: "y \<in> set ?news" "external_id y = Some n" by blast
        from news [OF y(1)] y(2) have "existing_get ?old (JInt n) = None" by auto
        with Some show False by simp
      qed
      then have "existing_get ?news (JInt n) = None"
        by (simp add: existing_get_None)
      moreover from g r kr n Some obtain row where
        "existing_get rows' (JInt n) = Some row" "checksum row = cks r" by auto
      ultimately show ?thesis using eq n by simp
    next
      case None
      have "(JInt n, r, cks r) \<in> set ?pend"
        using r n None kr by (force simp: pending_of_def keyed_checksum)
      then have "Some n \<in> set (map external_id ?news)"
        by (force simp: new_row_def)
      then obtain y where y: "existing_get ?news (JInt n) = Some y"
        using existing_get_None [of ?news n] by auto
      then have yin: "y \<in> set ?news" and yid: "external_id y = Some n"
        using existing_get_SomeD [of ?news "JInt n" y] by simp_all
      from news [OF yin] yid obtain r' where
        r': "r' \<in> set recs" "get_id r' = JInt n" "y = new_row key src (JInt n, r', cks r')"
        by auto
      from dist r r' n have "r' = r"
        by (auto simp: distinct_map inj_on_def)
      with r' have "checksum y = cks r" by (simp add: new_row_def)
      with eq y n show ?thesis by simp
    qed
  qed
  have part2: "case external_id row of None \<Rightarrow> True
               | Some m \<Rightarrow> JInt m \<in> set (map get_id recs)"
    if row: "row \<in> set ?rows3" for row
  proof (cases "external_id row")
    case None
    then show ?thesis by simp
  next
    case (Some m)
    from row delete_stale_subset have "row \<in> set (rows' @ ?news)" by blast
    then consider "row \<in> set rows'" | "row \<in> set ?news" by auto
    then have "JInt m \<in> set (map get_id recs)"
    proof cases
      case 1
      with Some have "Some m \<in> set (map external_id rows')" by force
      with e have "Some m \<in> set (map external_id ?old)" by simp
      from delete_stale_removes [OF k row Some this] show ?thesis .
    next
      case 2
      from news [OF 2] Some show ?thesis by force
    qed
    with Some show ?thesis by simp
  qed
  have "in_step cks ?rows3 recs"
    using part1 part2 by (simp add: in_step_def list_all_iff)
  with u show ?thesis by auto
qed

subsection \<open>What upsert_source leaves for an insertable list\<close>

lemma ok_incoming:
  assumes "list_all (\<lambda>r. get_id r = JNull \<or> keyed r) recs"
  shows "list_ex (\<lambda>j. py_eq j (Some n)) (incoming_ids recs) = (JInt n \<in> set (map get_id recs))"
proof
  assume "list_ex (\<lambda>j. py_eq j (Some n)) (incoming_ids recs)"
  then obtain r where r: "r \<in> set recs" "py_eq (get_id r) (Some n)"
    by (auto simp: list_ex_iff incoming_ids_def)
  with assms have "get_id r = JNull \<or> keyed r" by (simp add: list_all_iff)
  with r(2) have "keyed r" by auto
  then obtain k where "get_id r = JInt k" using keyed_id by blast
  with r show "JInt n \<in> set (map get_id recs)" by force
next
  assume "JInt n \<in> set (map get_id recs)"
  then obtain r where r: "r \<in> set recs" "get_id r = JInt n" by auto
  with assms have "keyed r" by (auto simp: list_all_iff)
  then have "is_dict r \<and> truthy (get_id r)" by (simp add: keyed_is_dict keyed_truthy)
  with r(1) have m: "r \<in> set (filter (\<lambda>r. is_dict r \<and> truthy (get_id r)) recs)" by simp
  have "get_id r \<in> set (incoming_ids recs)"
    unfolding incoming_ids_def set_map by (rule imageI [OF m])
  with r(2) have "\<exists>j \<in> set (incoming_ids recs). py_eq j (Some n)"
    by (intro bexI [where x = "JInt n"]) simp_all
  then show "list_ex (\<lambda>j. py_eq j (Some n)) (incoming_ids recs)"
    by (simp only: list_ex_iff)
qed

lemma stale_ok:
  "list_all (\<lambda>r. get_id r = JNull \<or> keyed r) recs \<Longrightarrow>
     (Some n \<in> set (stale_ids existing recs)) =
       (Some n \<in> set (map external_id existing) \<and> JInt n \<notin> set (map get_id recs))"
  by (auto simp: stale_ids_def ok_incoming)

lemma delete_stale_survives:
  assumes "list_all (\<lambda>r. get_id r = JNull \<or> keyed r) recs"
      and "row \<in> set rows"
      and "case external_id row of None \<Rightarrow> True | Some n \<Rightarrow> JInt n \<in> set (map get_id recs)"
  shows "row \<in> set (delete_stale existing recs rows)"
proof -
  have "\<not> sql_in (external_id row) (stale_ids existing recs)"
  proof (cases "external_id row")
    case None
    then show ?thesis by (simp add: sql_in_def)
  next
    case (Some n)
    with assms(3) have "JInt n \<in> set (map get_id recs)" by simp
    with Some assms(1) show ?thesis by (simp add: sql_in_def stale_ok)
  qed
  with assms(2) show ?thesis by (simp add: delete_stale_def Let_def)
qed

lemma delete_stale_gone:
  assumes "list_all (\<lambda>r. get_id r = JNull \<or> keyed r) recs"
      and "row \<in> set (delete_stale existing recs rows)"
      and "external_id row = Some m"
      and "Some m \<in> set (map external_id existing)"
  shows "JInt m \<in> set (map get_id recs)"
proof (rule ccontr)
  assume no: "JInt m \<notin> set (map get_id recs)"
  have st: "Some m \<in> set (stale_ids existing recs)"
    using assms(1,4) no by (simp add: stale_ok)
  have ne: "existing \<noteq> []" using assms(4) by auto
  have ns: "stale_ids existing recs \<noteq> []" using st by auto
  have "delete_stale existing recs rows
          = filter (\<lambda>row. \<not> sql_in (external_id row) (stale_ids existing recs)) rows"
    using ne ns by (simp add: delete_stale_def Let_def)
  with assms(2) have "\<not> sql_in (external_id row) (stale_ids existing recs)" by simp
  with assms(3) st show False by (simp add: sql_in_def)
qed

lemma upsert_source_holds:
  assumes "insertable recs" and "fits 100 key" and "fits 500 src"
  shows "\<exists>ch tbl'. upsert_source cks key src recs tbl = Inr ((length recs, ch), tbl')
           \<and> holds_records cks (tbl' key) recs \<and> (\<forall>k. k \<noteq> key \<longrightarrow> tbl' k = tbl k)"
proof -
  from assms(1) have ok: "list_all (\<lambda>r. get_id r = JNull \<or> keyed r) recs"
    by (simp add: insertable_def)
  let ?old = "tbl key"
  let ?pend = "pending_of cks ?old recs"
  let ?news = "map (new_row key src) ?pend"
  from upsert_source_insertable [OF assms, of cks tbl]
  obtain rows' ch where
    u: "upsert_source cks key src recs tbl =
          Inr ((length recs, ch), tbl(key := delete_stale ?old recs (rows' @ ?news)))"
    and e: "map external_id rows' = map external_id ?old"
    and g: "\<forall>r \<in> set recs. keyed r \<longrightarrow> existing_get ?old (get_id r) \<noteq> None \<longrightarrow>
               (\<exists>row. existing_get rows' (get_id r) = Some row \<and> checksum row = cks r)"
    by blast
  let ?rows3 = "delete_stale ?old recs (rows' @ ?news)"
  have part1: "\<exists>row \<in> set ?rows3. py_eq (get_id r) (external_id row)
                 \<and> checksum row = checksum_of cks r"
    if r: "r \<in> set recs" for r
  proof -
    from ok r have c: "get_id r = JNull \<or> keyed r" by (simp add: list_all_iff)
    show ?thesis
    proof (cases "keyed r \<and> existing_get ?old (get_id r) \<noteq> None")
      case True
      with g r obtain row where
        row: "existing_get rows' (get_id r) = Some row" "checksum row = cks r" by blast
      from existing_get_SomeD [OF row(1)]
      have m: "row \<in> set rows'" "py_eq (get_id r) (external_id row)" by simp_all
      from True obtain n where n: "get_id r = JInt n" using keyed_id by blast
      with m(2) have "external_id row = Some n" by (cases "external_id row") simp_all
      with n r have "case external_id row of None \<Rightarrow> True
                     | Some n \<Rightarrow> JInt n \<in> set (map get_id recs)" by force
      with m(1) have "row \<in> set ?rows3"
        by (intro delete_stale_survives [OF ok]) simp_all
      moreover have "checksum row = checksum_of cks r"
        using row(2) True by (simp add: keyed_checksum)
      ultimately show ?thesis using m(2) by blast
    next
      case False
      with c have "get_id r = JNull \<or> existing_get ?old (get_id r) = None" by blast
      with r have "(get_id r, r, checksum_of cks r) \<in> set ?pend"
        by (force simp: pending_of_def)
      then have "new_row key src (get_id r, r, checksum_of cks r) \<in> set ?news" by simp
      moreover have "py_eq (get_id r)
                       (external_id (new_row key src (get_id r, r, checksum_of cks r)))"
        using c keyed_id [of r] by (auto simp: new_row_def)
      moreover have "case external_id (new_row key src (get_id r, r, checksum_of cks r)) of
                       None \<Rightarrow> True | Some n \<Rightarrow> JInt n \<in> set (map get_id recs)"
        using r by (force simp: new_row_def split: json.splits)
      ultimately have "new_row key src (get_id r, r, checksum_of cks r) \<in> set ?rows3"
        by (intro delete_stale_survives [OF ok]) simp_all
      moreover have "checksum (new_row key src (get_id r, r, checksum_of cks r))
                       = checksum_of cks r" by (simp add: new_row_def)
      ultimately show ?thesis
        using \<open>py_eq (get_id r)
                 (external_id (new_row key src (get_id r, r, checksum_of cks r)))\<close>
        by blast
    qed
  qed
  have part2: "JInt m \<in> set (map get_id recs)"
    if row: "row \<in> set ?rows3" and m: "external_id row = Some m" for row m
  proof -
    from row delete_stale_subset have "row \<in> set rows' \<or> row \<in> set ?news" by fastforce
    then show ?thesis
    proof
      assume "row \<in> set rows'"
      with m have "Some m \<in> set (map external_id rows')" by force
      with e have "Some m \<in> set (map external_id ?old)" by simp
      from delete_stale_gone [OF ok row m this] show ?thesis .
    next
      assume "row \<in> set ?news"
      then obtain r where r: "r \<in> set recs"
        and eq: "row = new_row key src (get_id r, r, checksum_of cks r)"
        by (auto simp: pending_of_def)
      with m have "get_id r = JInt m" by (auto simp: new_row_def split: json.splits)
      with r show ?thesis by force
    qed
  qed
  have "holds_records cks ?rows3 recs"
    unfolding holds_records_def list_all_iff list_ex_iff
  proof (intro conjI ballI)
    fix r assume "r \<in> set recs"
    from part1 [OF this] show "\<exists>row \<in> set ?rows3. py_eq (get_id r) (external_id row)
                                  \<and> checksum row = checksum_of cks r" .
  next
    fix row assume row: "row \<in> set ?rows3"
    show "case external_id row of None \<Rightarrow> True
          | Some n \<Rightarrow> JInt n \<in> set (map get_id recs)"
      using part2 [OF row] by (cases "external_id row") simp_all
  qed
  with u show ?thesis by auto
qed

subsection \<open>The audit rows\<close>

lemma fits_status: "fits 20 ''ok'' \<and> fits 20 ''error''"
  by (simp add: fits_def char_len_def continuation_def)

lemma stored_error:
  "storable trig x \<Longrightarrow> audit_stored (error_audit trig x) = Some (error_audit trig x)"
  by (simp add: storable_def audit_stored_def error_audit_def varchar_fits fits_status)

lemma stored_ok:
  "storable trig x \<Longrightarrow> f \<le> length (records x) \<Longrightarrow> ch \<le> length (records x) \<Longrightarrow>
     audit_stored (ok_audit trig x f ch) = Some (ok_audit trig x f ch)"
  by (simp add: storable_def audit_stored_def ok_audit_def varchar_fits fits_status)

lemma flush_audits_same: "stored_as_is added \<Longrightarrow> flush_audits added = Inr added"
  by (simp add: stored_as_is_def flush_audits_def list_all_iff map_idI)

lemma upsert_step_changed:
  "upsert_step cks r (rows, ps, c) = Inr (rows1, ps1, c1) \<Longrightarrow> c1 \<le> c + 1"
  by (auto simp: upsert_step_def Let_def split: if_splits option.splits)

lemma upsert_loop_changed:
  "upsert_loop cks recs (rows, ps, c) = Inr (rows', ps', c') \<Longrightarrow> c' \<le> c + length recs"
proof (induction recs arbitrary: rows ps c)
  case Nil
  then show ?case by simp
next
  case (Cons r rs)
  then obtain rows1 ps1 c1 where
    st: "upsert_step cks r (rows, ps, c) = Inr (rows1, ps1, c1)"
    and l: "upsert_loop cks rs (rows1, ps1, c1) = Inr (rows', ps', c')"
    by (cases "upsert_step cks r (rows, ps, c)") auto
  from upsert_step_changed [OF st] Cons.IH [OF l] show ?case by simp
qed

lemma upsert_counts:
  assumes "upsert_source cks key src recs tbl = Inr ((f, ch), tbl')"
  shows "f = length recs \<and> ch \<le> length recs"
proof -
  from assms obtain rows1 ps where
    "upsert_loop cks recs (tbl key, [], 0) = Inr (rows1, ps, ch)" and "f = length recs"
    by (auto simp: upsert_source_def Let_def split: sum.splits prod.splits)
  with upsert_loop_changed [of cks recs "tbl key" "[]" 0 rows1 ps ch] show ?thesis by simp
qed

lemma process_ok_step:
  assumes "error_text a = []" and "stored_as_is added"
      and "upsert_source cks (source_key a) (url a) (records a) tbl = Inr ((f, ch), tbl1)"
  shows "process_results cks trig (a # raw) (tbl, added, tu, tc, errs)
           = process_results cks trig raw
               (tbl1, added @ [ok_audit trig a f ch], tu + f, tc + ch, errs)"
  using assms by (simp add: flush_audits_same)

lemma stored_snoc_error:
  "stored_as_is added \<Longrightarrow> storable trig a \<Longrightarrow> stored_as_is (added @ [error_audit trig a])"
  by (simp add: stored_as_is_def stored_error)

lemma stored_snoc_ok:
  assumes "stored_as_is added" and "storable trig a"
      and "upsert_source cks (source_key a) (url a) (records a) tbl = Inr ((f, ch), tbl1)"
  shows "stored_as_is (added @ [ok_audit trig a f ch])"
  using assms upsert_counts [OF assms(3)] by (simp add: stored_as_is_def stored_ok)

lemma storable_fits: "storable trig a \<Longrightarrow> fits 100 (source_key a) \<and> fits 500 (url a)"
  by (simp add: storable_def)

subsection \<open>The loop over the outcomes\<close>

lemma process_first:
  assumes "\<forall>x \<in> set raw. error_text x = [] \<longrightarrow> well_keyed (records x)"
      and "distinct (map source_key (filter (\<lambda>x. error_text x = []) raw))"
      and "\<forall>x \<in> set raw. storable trig x"
      and "stored_as_is added"
  shows "\<exists>tbl' added' tu' tc' errs'.
           process_results cks trig raw (tbl, added, tu, tc, errs)
             = Inr (tbl', added', tu', tc', errs')
         \<and> stored_as_is added'
         \<and> (\<forall>x \<in> set raw. error_text x = [] \<longrightarrow>
               in_step cks (tbl' (source_key x)) (records x))
         \<and> (\<forall>k. k \<notin> source_key ` {x \<in> set raw. error_text x = []} \<longrightarrow> tbl' k = tbl k)"
  using assms
proof (induction raw arbitrary: tbl added tu tc errs)
  case Nil
  then show ?case by simp
next
  case (Cons a raw)
  have wk: "\<forall>x \<in> set raw. error_text x = [] \<longrightarrow> well_keyed (records x)"
    using Cons.prems(1) by simp
  have dist: "distinct (map source_key (filter (\<lambda>x. error_text x = []) raw))"
    using Cons.prems(2) by (simp split: if_splits)
  have sto: "\<forall>x \<in> set raw. storable trig x" and sa: "storable trig a"
    using Cons.prems(3) by simp_all
  show ?case
  proof (cases "error_text a = []")
    case False
    have sets: "{x \<in> set (a # raw). error_text x = []} = {x \<in> set raw. error_text x = []}"
      using False by auto
    from Cons.IH [OF wk dist sto stored_snoc_error [OF Cons.prems(4) sa], of tbl tu tc
                    "errs @ [source_key a @ '': '' @ error_text a]"]
    obtain tbl' added' tu' tc' errs' where
      r: "process_results cks trig raw
            (tbl, added @ [error_audit trig a], tu, tc,
             errs @ [source_key a @ '': '' @ error_text a])
          = Inr (tbl', added', tu', tc', errs')"
      and i: "stored_as_is added'"
      and s: "\<forall>x \<in> set raw. error_text x = [] \<longrightarrow>
               in_step cks (tbl' (source_key x)) (records x)"
      and f: "\<forall>k. k \<notin> source_key ` {x \<in> set raw. error_text x = []} \<longrightarrow> tbl' k = tbl k"
      by blast
    have "process_results cks trig (a # raw) (tbl, added, tu, tc, errs)
            = Inr (tbl', added', tu', tc', errs')"
      using False r by simp
    moreover have "\<forall>x \<in> set (a # raw). error_text x = [] \<longrightarrow>
               in_step cks (tbl' (source_key x)) (records x)"
      using False s by simp
    moreover have "\<forall>k. k \<notin> source_key ` {x \<in> set (a # raw). error_text x = []}
               \<longrightarrow> tbl' k = tbl k"
      using f unfolding sets .
    ultimately show ?thesis using i by blast
  next
    case True
    with Cons.prems(1) have "well_keyed (records a)" by simp
    from upsert_source_well_keyed [OF this storable_fits [OF sa, THEN conjunct1]
           storable_fits [OF sa, THEN conjunct2], of cks tbl]
    obtain ch tbl1 where
      u: "upsert_source cks (source_key a) (url a) (records a) tbl
            = Inr ((length (records a), ch), tbl1)"
      and s1: "in_step cks (tbl1 (source_key a)) (records a)"
      and f1: "\<forall>k. k \<noteq> source_key a \<longrightarrow> tbl1 k = tbl k"
      by blast
    from Cons.IH [OF wk dist sto stored_snoc_ok [OF Cons.prems(4) sa u], of tbl1
                    "tu + length (records a)" "tc + ch" errs]
    obtain tbl' added' tu' tc' errs' where
      r: "process_results cks trig raw
            (tbl1, added @ [ok_audit trig a (length (records a)) ch],
             tu + length (records a), tc + ch, errs)
          = Inr (tbl', added', tu', tc', errs')"
      and i: "stored_as_is added'"
      and s: "\<forall>x \<in> set raw. error_text x = [] \<longrightarrow>
               in_step cks (tbl' (source_key x)) (records x)"
      and f: "\<forall>k. k \<notin> source_key ` {x \<in> set raw. error_text x = []} \<longrightarrow> tbl' k = tbl1 k"
      by blast
    have fresh: "source_key a \<notin> source_key ` {x \<in> set raw. error_text x = []}"
      using Cons.prems(2) True by auto
    have here: "in_step cks (tbl' (source_key a)) (records a)"
      using f fresh s1 by simp
    have frame: "tbl' k = tbl k"
      if "k \<notin> source_key ` {x \<in> set (a # raw). error_text x = []}" for k
    proof -
      from that True have "k \<noteq> source_key a"
        and "k \<notin> source_key ` {x \<in> set raw. error_text x = []}" by auto
      with f f1 show ?thesis by simp
    qed
    have "process_results cks trig (a # raw) (tbl, added, tu, tc, errs)
            = Inr (tbl', added', tu', tc', errs')"
      using process_ok_step [OF True Cons.prems(4) u] r by simp
    with s here frame i show ?thesis by auto
  qed
qed

lemma process_second:
  assumes "\<forall>x \<in> set raw. error_text x = [] \<longrightarrow>
             well_keyed (records x) \<and> in_step cks (tbl (source_key x)) (records x)"
      and "\<forall>x \<in> set raw. storable trig x"
      and "stored_as_is added"
  shows "\<exists>added' tu' errs'.
           process_results cks trig raw (tbl, added, tu, tc, errs)
             = Inr (tbl, added', tu', tc, errs')
         \<and> stored_as_is added'"
  using assms
proof (induction raw arbitrary: added tu errs)
  case Nil
  then show ?case by simp
next
  case (Cons a raw)
  have rest: "\<forall>x \<in> set raw. error_text x = [] \<longrightarrow>
             well_keyed (records x) \<and> in_step cks (tbl (source_key x)) (records x)"
    using Cons.prems(1) by simp
  have sto: "\<forall>x \<in> set raw. storable trig x" and sa: "storable trig a"
    using Cons.prems(2) by simp_all
  show ?case
  proof (cases "error_text a = []")
    case False
    from Cons.IH [OF rest sto stored_snoc_error [OF Cons.prems(3) sa], of tu
                    "errs @ [source_key a @ '': '' @ error_text a]"]
    show ?thesis using False by auto
  next
    case True
    with Cons.prems(1) have "well_keyed (records a)"
      and "in_step cks (tbl (source_key a)) (records a)" by simp_all
    then have u: "upsert_source cks (source_key a) (url a) (records a) tbl
                    = Inr ((length (records a), 0), tbl)"
      by (rule upsert_source_in_step)
    from Cons.IH [OF rest sto stored_snoc_ok [OF Cons.prems(3) sa u], of
                    "tu + length (records a)" errs]
    show ?thesis using process_ok_step [OF True Cons.prems(3) u, of trig raw tu tc errs]
      by auto
  qed
qed

lemma invalidate_initialised:
  "p \<noteq> NoPool \<Longrightarrow> \<exists>n p'. invalidate_pattern glob now p pat = Inr (n, p') \<and> p' \<noteq> NoPool"
  by (cases p) (simp_all add: invalidate_pattern_def except_RedisError_def try_redis_def
      get_redis_def with_store_def Let_def)

lemma refresh_results_ok:
  assumes "process_results cks trig raw (data_records d, [], 0, 0, []) = Inr (tbl, added, tu, tc, errs)"
      and "p \<noteq> NoPool" and "stored_as_is added"
  shows "\<exists>p'. p' \<noteq> NoPool \<and> refresh_results cks glob now trig raw d p =
           (\<lparr>data_records = tbl, fetch_audits = fetch_audits d @ added\<rparr>, p',
            Inr \<lparr>message = ''Refresh complete'',
                 sources_refreshed = length (filter (\<lambda>r. error_text r = []) raw),
                 records_upserted = tu, records_changed = tc, errors = errs\<rparr>)"
proof -
  from invalidate_initialised [OF assms(2), of glob now "''agg:v2:*''"]
  obtain n p' where "invalidate_pattern glob now p ''agg:v2:*'' = Inr (n, p')" "p' \<noteq> NoPool"
    by blast
  with assms(1) flush_audits_same [OF assms(3)] show ?thesis
    by (simp add: refresh_results_def Let_def)
qed

subsection \<open>The loop over the outcomes, with failed sources\<close>

lemma filter_error_text:
  "\<forall>x \<in> set raw. error x \<noteq> Some [] \<Longrightarrow>
     filter (\<lambda>x. error_text x = []) raw = filter (\<lambda>x. error x = None) raw"
  by (rule filter_cong [OF refl]) (auto simp: error_text_def split: option.splits)

lemma last_fetch_Cons:
  "last_fetch (a # raw) k =
     (case last_fetch raw k of
        Some recs \<Rightarrow> Some recs
      | None \<Rightarrow> if error a = None \<and> source_key a = k then Some (records a) else None)"
  by (auto simp: last_fetch_def find_app split: option.splits)

lemma process_partial:
  assumes "\<forall>x \<in> set raw. error x \<noteq> Some []"
      and "\<forall>x \<in> set raw. error x = None \<longrightarrow> insertable (records x)"
      and "\<forall>x \<in> set raw. storable trig x"
      and "stored_as_is added"
  shows "\<exists>tbl' auds tc'.
           process_results cks trig raw (tbl, added, tu, tc, errs)
             = Inr (tbl', added @ auds,
                    tu + sum_list (map (\<lambda>x. length (records x)) (filter (\<lambda>x. error x = None) raw)),
                    tc',
                    errs @ map (\<lambda>x. source_key x @ '': '' @ error_text x)
                               (filter (\<lambda>x. error x \<noteq> None) raw))
         \<and> stored_as_is (added @ auds)
         \<and> list_all2 (\<lambda>x a. if error x = None
                              then (\<exists>ch. a = ok_audit trig x (length (records x)) ch)
                              else a = error_audit trig x) raw auds
         \<and> (\<forall>k. case last_fetch raw k of
                   None \<Rightarrow> tbl' k = tbl k
                 | Some recs \<Rightarrow> holds_records cks (tbl' k) recs)"
  using assms
proof (induction raw arbitrary: tbl added tu tc errs)
  case Nil
  then show ?case by (simp add: last_fetch_def)
next
  case (Cons a raw)
  have h1: "\<forall>x \<in> set raw. error x \<noteq> Some []"
    and h2: "\<forall>x \<in> set raw. error x = None \<longrightarrow> insertable (records x)"
    and sto: "\<forall>x \<in> set raw. storable trig x" and sa: "storable trig a"
    using Cons.prems by simp_all
  show ?case
  proof (cases "error a")
    case None
    then have et: "error_text a = []" by (simp add: error_text_def)
    from Cons.prems(2) None have "insertable (records a)" by simp
    from upsert_source_holds [OF this storable_fits [OF sa, THEN conjunct1]
           storable_fits [OF sa, THEN conjunct2], of cks tbl]
    obtain ch tbl1 where
      u: "upsert_source cks (source_key a) (url a) (records a) tbl
            = Inr ((length (records a), ch), tbl1)"
      and hr: "holds_records cks (tbl1 (source_key a)) (records a)"
      and fr: "\<forall>k. k \<noteq> source_key a \<longrightarrow> tbl1 k = tbl k" by blast
    from Cons.IH [OF h1 h2 sto stored_snoc_ok [OF Cons.prems(4) sa u], of tbl1
                    "tu + length (records a)" "tc + ch" errs]
    obtain tbl' auds tc' where
      r: "process_results cks trig raw
            (tbl1, added @ [ok_audit trig a (length (records a)) ch],
             tu + length (records a), tc + ch, errs)
          = Inr (tbl', (added @ [ok_audit trig a (length (records a)) ch]) @ auds,
                 tu + length (records a)
                   + sum_list (map (\<lambda>x. length (records x)) (filter (\<lambda>x. error x = None) raw)),
                 tc',
                 errs @ map (\<lambda>x. source_key x @ '': '' @ error_text x)
                            (filter (\<lambda>x. error x \<noteq> None) raw))"
      and i: "stored_as_is ((added @ [ok_audit trig a (length (records a)) ch]) @ auds)"
      and l: "list_all2 (\<lambda>x a. if error x = None
                              then (\<exists>ch. a = ok_audit trig x (length (records x)) ch)
                              else a = error_audit trig x) raw auds"
      and t: "\<forall>k. case last_fetch raw k of
                   None \<Rightarrow> tbl' k = tbl1 k
                 | Some recs \<Rightarrow> holds_records cks (tbl' k) recs"
      by blast
    let ?auds = "ok_audit trig a (length (records a)) ch # auds"
    have "process_results cks trig (a # raw) (tbl, added, tu, tc, errs)
            = Inr (tbl', added @ ?auds,
                   tu + sum_list (map (\<lambda>x. length (records x))
                                      (filter (\<lambda>x. error x = None) (a # raw))),
                   tc',
                   errs @ map (\<lambda>x. source_key x @ '': '' @ error_text x)
                              (filter (\<lambda>x. error x \<noteq> None) (a # raw)))"
      using process_ok_step [OF et Cons.prems(4) u, of trig raw tu tc errs] r None
      by (simp add: add.assoc)
    moreover have "list_all2 (\<lambda>x a. if error x = None
                              then (\<exists>ch. a = ok_audit trig x (length (records x)) ch)
                              else a = error_audit trig x) (a # raw) ?auds"
      using l None by auto
    moreover have "stored_as_is (added @ ?auds)" using i by simp
    moreover have "case last_fetch (a # raw) k of
                     None \<Rightarrow> tbl' k = tbl k
                   | Some recs \<Rightarrow> holds_records cks (tbl' k) recs" for k
    proof (cases "last_fetch raw k")
      case (Some recs)
      with t [rule_format, of k] show ?thesis by (simp add: last_fetch_Cons)
    next
      case N: None
      with t [rule_format, of k] have same: "tbl' k = tbl1 k" by simp
      show ?thesis
      proof (cases "source_key a = k")
        case True
        with N None hr same show ?thesis by (simp add: last_fetch_Cons)
      next
        case False
        with N None fr same show ?thesis by (simp add: last_fetch_Cons)
      qed
    qed
    ultimately show ?thesis by blast
  next
    case (Some e)
    with Cons.prems(1) have et: "error_text a \<noteq> []" by (auto simp: error_text_def)
    from Cons.IH [OF h1 h2 sto stored_snoc_error [OF Cons.prems(4) sa], of tbl tu tc
                    "errs @ [source_key a @ '': '' @ error_text a]"]
    obtain tbl' auds tc' where
      r: "process_results cks trig raw
            (tbl, added @ [error_audit trig a], tu, tc,
             errs @ [source_key a @ '': '' @ error_text a])
          = Inr (tbl', (added @ [error_audit trig a]) @ auds,
                 tu + sum_list (map (\<lambda>x. length (records x)) (filter (\<lambda>x. error x = None) raw)),
                 tc',
                 (errs @ [source_key a @ '': '' @ error_text a])
                   @ map (\<lambda>x. source_key x @ '': '' @ error_text x)
                         (filter (\<lambda>x. error x \<noteq> None) raw))"
      and i: "stored_as_is ((added @ [error_audit trig a]) @ auds)"
      and l: "list_all2 (\<lambda>x a. if error x = None
                              then (\<exists>ch. a = ok_audit trig x (length (records x)) ch)
                              else a = error_audit trig x) raw auds"
      and t: "\<forall>k. case last_fetch raw k of
                   None \<Rightarrow> tbl' k = tbl k
                 | Some recs \<Rightarrow> holds_records cks (tbl' k) recs"
      by blast
    let ?auds = "error_audit trig a # auds"
    have "process_results cks trig (a # raw) (tbl, added, tu, tc, errs)
            = Inr (tbl', added @ ?auds,
                   tu + sum_list (map (\<lambda>x. length (records x))
                                      (filter (\<lambda>x. error x = None) (a # raw))),
                   tc',
                   errs @ map (\<lambda>x. source_key x @ '': '' @ error_text x)
                              (filter (\<lambda>x. error x \<noteq> None) (a # raw)))"
      using et r Some by simp
    moreover have "list_all2 (\<lambda>x a. if error x = None
                              then (\<exists>ch. a = ok_audit trig x (length (records x)) ch)
                              else a = error_audit trig x) (a # raw) ?auds"
      using l Some by auto
    moreover have "stored_as_is (added @ ?auds)" using i by simp
    moreover have "case last_fetch (a # raw) k of
                     None \<Rightarrow> tbl' k = tbl k
                   | Some recs \<Rightarrow> holds_records cks (tbl' k) recs" for k
      using t [rule_format, of k] Some by (simp add: last_fetch_Cons split: option.splits)
    ultimately show ?thesis by blast
  qed
qed

section \<open>Refresh orchestrator: properties\<close>

lemmas db_eval = flush_new_def varchar_def char_len_def continuation_def flush_audits_def
  audit_stored_def

text \<open>
  C1, as the claim states it, fails: three sources, of which one errors, are refreshed
  while the cache pool was never initialised. The two successful sources are reconciled
  and committed with their audit entries, and then \<^verbatim>\<open>invalidate_pattern\<close> raises
  \<open>CacheError\<close>, which \<^verbatim>\<open>refresh_data\<close> passes on to its caller: no summary is returned.
\<close>

theorem C1_uninitialised_pool_is_a_fault:
  "refresh_results (\<lambda>r. ''digest'') (\<lambda>pat k. True) 0 ''manual''
     [\<lparr>url = ''https://x/posts'', source_key = ''posts'',
        records = [JObj [(''id'', JInt 1)]], duration_ms = 5, error = None\<rparr>,
      \<lparr>url = ''https://x/users'', source_key = ''users'',
        records = [JObj [(''id'', JInt 7)]], duration_ms = 6, error = None\<rparr>,
      \<lparr>url = ''https://x/todos'', source_key = ''todos'',
        records = [], duration_ms = 0, error = Some ''boom''\<rparr>]
     \<lparr>data_records = (\<lambda>k. []), fetch_audits = []\<rparr> NoPool
   = (\<lparr>data_records = (\<lambda>k. [])
          (''posts'' := [\<lparr>row_source_key = ''posts'', row_source_url = ''https://x/posts'',
                          external_id = Some 1, payload = JObj [(''id'', JInt 1)],
                          checksum = ''digest''\<rparr>],
           ''users'' := [\<lparr>row_source_key = ''users'', row_source_url = ''https://x/users'',
                          external_id = Some 7, payload = JObj [(''id'', JInt 7)],
                          checksum = ''digest''\<rparr>]),
       fetch_audits =
         [\<lparr>audit_source_url = ''https://x/posts'', audit_source_key = ''posts'',
           status = ''ok'', audit_records_fetched = 1, audit_records_changed = 1,
           audit_duration_ms = 5, error_detail = None, triggered_by = ''manual''\<rparr>,
          \<lparr>audit_source_url = ''https://x/users'', audit_source_key = ''users'',
           status = ''ok'', audit_records_fetched = 1, audit_records_changed = 1,
           audit_duration_ms = 6, error_detail = None, triggered_by = ''manual''\<rparr>,
          \<lparr>audit_source_url = ''https://x/todos'', audit_source_key = ''todos'',
           status = ''error'', audit_records_fetched = 0, audit_records_changed = 0,
           audit_duration_ms = 0, error_detail = Some ''boom'', triggered_by = ''manual''\<rparr>]\<rparr>,
      NoPool, Inl CacheError)"
  by (simp add: refresh_results_def error_text_def upsert_source_def upsert_step_def
      existing_get_def checksum_of_def delete_stale_def ok_audit_def error_audit_def
      invalidate_pattern_def except_RedisError_def try_redis_def get_redis_def Let_def
      db_eval)

text \<open>
  C1, amended. Let the cache pool be initialised, let every error description that is
  present be non-empty, let the records of every successful source be insertable (each
  has no id, or a non-zero 32-bit integer id that no other record of the source has),
  and let every outcome be storable (URL, source key and trigger fit their columns, the
  counts fit 32 bits, no NUL character in the error description). Then, for every list
  of fetch outcomes, the refresh returns a summary, with
  \<^item> \<open>sources_refreshed\<close> the number of outcomes without error;
  \<^item> \<open>errors\<close> one line per failed outcome, in order;
  \<^item> \<open>records_upserted\<close> the number of records of the successful outcomes;
  \<^item> the audit log extended by one entry per outcome, in order: the
    \<^verbatim>\<open>status=error\<close> entry for a failed outcome, an \<^verbatim>\<open>ok\<close> entry with the fetched
    count for a successful one;
  \<^item> the committed table holding, under every source key that a successful outcome
    has, the records of the last such outcome: a row with the id and the checksum of
    each record, and no row with another external id;
  \<^item> the committed table unchanged under every other source key: failed sources are
    skipped.
\<close>

theorem C1_partial_failure_summary:
  assumes "p \<noteq> NoPool"
      and "\<forall>x \<in> set raw. error x \<noteq> Some []"
      and "\<forall>x \<in> set raw. error x = None \<longrightarrow> insertable (records x)"
      and "\<forall>x \<in> set raw. storable trig x"
  shows "\<exists>d' p' resp.
           refresh_results cks glob now trig raw d p = (d', p', Inr resp)
         \<and> sources_refreshed resp = length (filter (\<lambda>x. error x = None) raw)
         \<and> errors resp = map (\<lambda>x. source_key x @ '': '' @ error_text x)
                              (filter (\<lambda>x. error x \<noteq> None) raw)
         \<and> records_upserted resp
             = sum_list (map (\<lambda>x. length (records x)) (filter (\<lambda>x. error x = None) raw))
         \<and> take (length (fetch_audits d)) (fetch_audits d') = fetch_audits d
         \<and> list_all2 (\<lambda>x a. if error x = None
                              then (\<exists>ch. a = ok_audit trig x (length (records x)) ch)
                              else a = error_audit trig x)
                      raw (drop (length (fetch_audits d)) (fetch_audits d'))
         \<and> (\<forall>k. case last_fetch raw k of
                   None \<Rightarrow> data_records d' k = data_records d k
                 | Some recs \<Rightarrow> holds_records cks (data_records d' k) recs)"
proof -
  let ?good = "filter (\<lambda>x. error x = None) raw"
  have nil: "stored_as_is []" by (simp add: stored_as_is_def)
  from process_partial [OF assms(2,3,4) nil, of cks "data_records d" 0 0 "[]"]
  obtain tbl' auds tc' where
    pr: "process_results cks trig raw (data_records d, [], 0, 0, [])
           = Inr (tbl', auds,
                  sum_list (map (\<lambda>x. length (records x)) ?good), tc',
                  map (\<lambda>x. source_key x @ '': '' @ error_text x)
                      (filter (\<lambda>x. error x \<noteq> None) raw))"
    and i: "stored_as_is auds"
    and l: "list_all2 (\<lambda>x a. if error x = None
                              then (\<exists>ch. a = ok_audit trig x (length (records x)) ch)
                              else a = error_audit trig x) raw auds"
    and t: "\<forall>k. case last_fetch raw k of
                   None \<Rightarrow> tbl' k = data_records d k
                 | Some recs \<Rightarrow> holds_records cks (tbl' k) recs"
    by auto
  from refresh_results_ok [OF pr assms(1) i, of glob now]
  obtain p' where run: "refresh_results cks glob now trig raw d p =
           (\<lparr>data_records = tbl', fetch_audits = fetch_audits d @ auds\<rparr>, p',
            Inr \<lparr>message = ''Refresh complete'',
                 sources_refreshed = length (filter (\<lambda>r. error_text r = []) raw),
                 records_upserted = sum_list (map (\<lambda>x. length (records x)) ?good),
                 records_changed = tc',
                 errors = map (\<lambda>x. source_key x @ '': '' @ error_text x)
                              (filter (\<lambda>x. error x \<noteq> None) raw)\<rparr>)"
    by blast
  have fe: "filter (\<lambda>x. error_text x = []) raw = ?good"
    by (rule filter_error_text [OF assms(2)])
  have t': "case last_fetch raw k of
              None \<Rightarrow> data_records \<lparr>data_records = tbl', fetch_audits = fetch_audits d @ auds\<rparr> k
                        = data_records d k
            | Some recs \<Rightarrow>
                holds_records cks
                  (data_records \<lparr>data_records = tbl', fetch_audits = fetch_audits d @ auds\<rparr> k)
                  recs" for k
    using t [rule_format, of k] by (simp split: option.splits)
  show ?thesis
    unfolding run using l fe t' by simp
qed

theorem C1_partial_failure_witness:
  "\<exists>d' p' resp.
     refresh_results (\<lambda>r. ''digest'') (\<lambda>pat k. True) 0 ''manual''
       [\<lparr>url = ''https://x/posts'', source_key = ''posts'',
          records = [JObj [(''id'', JInt 1)]], duration_ms = 5, error = None\<rparr>,
        \<lparr>url = ''https://x/users'', source_key = ''users'',
          records = [JObj [(''id'', JInt 7)]], duration_ms = 6, error = None\<rparr>,
        \<lparr>url = ''https://x/todos'', source_key = ''todos'',
          records = [], duration_ms = 0, error = Some ''boom''\<rparr>]
       \<lparr>data_records = (\<lambda>k. []), fetch_audits = []\<rparr> (Reachable [])
       = (d', p', Inr resp)
   \<and> sources_refreshed resp = 2
   \<and> errors resp = [''todos: boom'']
   \<and> records_upserted resp = 2
   \<and> holds_records (\<lambda>r. ''digest'') (data_records d' ''posts'') [JObj [(''id'', JInt 1)]]
   \<and> holds_records (\<lambda>r. ''digest'') (data_records d' ''users'') [JObj [(''id'', JInt 7)]]
   \<and> data_records d' ''todos'' = []"
proof -
  let ?raw = "[\<lparr>url = ''https://x/posts'', source_key = ''posts'',
                 records = [JObj [(''id'', JInt 1)]], duration_ms = 5, error = None\<rparr>,
               \<lparr>url = ''https://x/users'', source_key = ''users'',
                 records = [JObj [(''id'', JInt 7)]], duration_ms = 6, error = None\<rparr>,
               \<lparr>url = ''https://x/todos'', source_key = ''todos'',
                 records = [], duration_ms = 0, error = Some ''boom''\<rparr>]"
  have h1: "Reachable [] \<noteq> NoPool" by simp
  have h2: "\<forall>x \<in> set ?raw. error x \<noteq> Some []" by simp
  have h3: "\<forall>x \<in> set ?raw. error x = None \<longrightarrow> insertable (records x)"
    by (simp add: insertable_def keyed_def)
  have h4: "\<forall>x \<in> set ?raw. storable ''manual'' x"
    by (simp add: storable_def fits_def char_len_def continuation_def)
  from C1_partial_failure_summary [OF h1 h2 h3 h4, of "\<lambda>r. ''digest''" "\<lambda>pat k. True" 0
                 "\<lparr>data_records = (\<lambda>k. []), fetch_audits = []\<rparr>"]
  obtain d' p' resp where
    r: "refresh_results (\<lambda>r. ''digest'') (\<lambda>pat k. True) 0 ''manual'' ?raw
          \<lparr>data_records = (\<lambda>k. []), fetch_audits = []\<rparr> (Reachable []) = (d', p', Inr resp)"
    and a: "sources_refreshed resp = length (filter (\<lambda>x. error x = None) ?raw)"
    and b: "errors resp = map (\<lambda>x. source_key x @ '': '' @ error_text x)
                              (filter (\<lambda>x. error x \<noteq> None) ?raw)"
    and c: "records_upserted resp
             = sum_list (map (\<lambda>x. length (records x)) (filter (\<lambda>x. error x = None) ?raw))"
    and t: "\<forall>k. case last_fetch ?raw k of
                   None \<Rightarrow> data_records d' k
                             = data_records \<lparr>data_records = (\<lambda>k. []), fetch_audits = []\<rparr> k
                 | Some recs \<Rightarrow> holds_records (\<lambda>r. ''digest'') (data_records d' k) recs"
    by blast
  have "sources_refreshed resp = 2" using a by simp
  moreover have "errors resp = [''todos: boom'']" using b by (simp add: error_text_def)
  moreover have "records_upserted resp = 2" using c by simp
  moreover have "holds_records (\<lambda>r. ''digest'') (data_records d' ''posts'')
                   [JObj [(''id'', JInt 1)]]"
    using t [rule_format, of "''posts''"] by (simp add: last_fetch_def)
  moreover have "holds_records (\<lambda>r. ''digest'') (data_records d' ''users'')
                   [JObj [(''id'', JInt 7)]]"
    using t [rule_format, of "''users''"] by (simp add: last_fetch_def)
  moreover have "data_records d' ''todos'' = []"
    using t [rule_format, of "''todos''"] by (simp add: last_fetch_def)
  ultimately show ?thesis using r by blast
qed

text \<open>
  C7, as the claim states it, fails: the one source answers, unchanged on both runs,
  with the single object \<^verbatim>\<open>{"title": "t"}\<close>, which has no id. The first refresh inserts
  it, and the second refresh, on the database and breaker state the first one left,
  inserts it again: \<open>records_changed\<close> is 1 on the second run too.
\<close>

theorem C7_record_without_id_changes_again:
  "refresh_data (\<lambda>r. ''digest'') (\<lambda>pat k. True) 3
     (\<lambda>u n. Response (JObj [(''title'', JStr ''t'')]) 5) 0 (\<lambda>u. 1) 2 ''manual''
     [''https://x/posts''] Map.empty
     \<lparr>data_records = (\<lambda>k. []), fetch_audits = []\<rparr> (Reachable [])
   = ((\<lparr>data_records = (\<lambda>k. [])
          (''posts'' := [\<lparr>row_source_key = ''posts'', row_source_url = ''https://x/posts'',
                          external_id = None, payload = JObj [(''title'', JStr ''t'')],
                          checksum = ''digest''\<rparr>]),
        fetch_audits =
          [\<lparr>audit_source_url = ''https://x/posts'', audit_source_key = ''posts'',
            status = ''ok'', audit_records_fetched = 1, audit_records_changed = 1,
            audit_duration_ms = 5, error_detail = None, triggered_by = ''manual''\<rparr>]\<rparr>,
       Reachable [],
       Inr \<lparr>message = ''Refresh complete'', sources_refreshed = 1, records_upserted = 1,
            records_changed = 1, errors = []\<rparr>),
      Map.empty)
   \<and> refresh_data (\<lambda>r. ''digest'') (\<lambda>pat k. True) 3
     (\<lambda>u n. Response (JObj [(''title'', JStr ''t'')]) 5) 10 (\<lambda>u. 11) 12 ''manual''
     [''https://x/posts''] Map.empty
     \<lparr>data_records = (\<lambda>k. [])
          (''posts'' := [\<lparr>row_source_key = ''posts'', row_source_url = ''https://x/posts'',
                          external_id = None, payload = JObj [(''title'', JStr ''t'')],
                          checksum = ''digest''\<rparr>]),
        fetch_audits =
          [\<lparr>audit_source_url = ''https://x/posts'', audit_source_key = ''posts'',
            status = ''ok'', audit_records_fetched = 1, audit_records_changed = 1,
            audit_duration_ms = 5, error_detail = None, triggered_by = ''manual''\<rparr>]\<rparr>
     (Reachable [])
   = ((\<lparr>data_records = (\<lambda>k. [])
          (''posts'' := [\<lparr>row_source_key = ''posts'', row_source_url = ''https://x/posts'',
                          external_id = None, payload = JObj [(''title'', JStr ''t'')],
                          checksum = ''digest''\<rparr>,
                         \<lparr>row_source_key = ''posts'', row_source_url = ''https://x/posts'',
                          external_id = None, payload = JObj [(''title'', JStr ''t'')],
                          checksum = ''digest''\<rparr>]),
        fetch_audits =
          [\<lparr>audit_source_url = ''https://x/posts'', audit_source_key = ''posts'',
            status = ''ok'', audit_records_fetched = 1, audit_records_changed = 1,
            audit_duration_ms = 5, error_detail = None, triggered_by = ''manual''\<rparr>,
           \<lparr>audit_source_url = ''https://x/posts'', audit_source_key = ''posts'',
            status = ''ok'', audit_records_fetched = 1, audit_records_changed = 1,
            audit_duration_ms = 5, error_detail = None, triggered_by = ''manual''\<rparr>]\<rparr>,
       Reachable [],
       Inr \<lparr>message = ''Refresh complete'', sources_refreshed = 1, records_upserted = 1,
            records_changed = 1, errors = []\<rparr>),
      Map.empty)"
  by (simp add: refresh_data_def fetch_sources_def is_open_def attempt_fetch_def
      fetch_one_def numeral_2_eq_2 source_key_of_def record_success_def
      refresh_results_def error_text_def upsert_source_def upsert_step_def
      existing_get_def checksum_of_def delete_stale_def stale_ids_def incoming_ids_def
      sql_in_def ok_audit_def
      invalidate_pattern_def except_RedisError_def try_redis_def get_redis_def
      with_store_def scan_keys_def Let_def db_eval)

text \<open>
  C7, amended. Let the cache pool be initialised, let both runs fetch the same outcomes
  from the configured sources, let the records of every outcome that is reconciled be
  well keyed (objects with non-zero 32-bit integer ids, no id twice in one outcome),
  let no two reconciled outcomes share a source key, and let every outcome be storable
  with the trigger of either run (URL, source key and trigger fit their columns, the
  counts fit 32 bits, no NUL character in the error description). Then both runs of
  \<open>refresh_data\<close> return a summary, the second one reports \<open>records_changed = 0\<close>, and it
  leaves the table as the first run committed it.
\<close>

theorem C7_second_refresh_changes_nothing:
  assumes "p \<noteq> NoPool"
      and "\<forall>x \<in> set raw. error_text x = [] \<longrightarrow> well_keyed (records x)"
      and "distinct (map source_key (filter (\<lambda>x. error_text x = []) raw))"
      and "fetch_sources max_retries up now1 fin1 data_sources c = (raw, c1, calls1)"
      and "fetch_sources max_retries up now2 fin2 data_sources c1 = (raw, c2, calls2)"
      and "\<forall>x \<in> set raw. storable trig1 x"
      and "\<forall>x \<in> set raw. storable trig2 x"
  shows "\<exists>d1 p1 r1 d2 p2 r2.
           refresh_data cks glob max_retries up now1 fin1 t1 trig1 data_sources c d p
             = ((d1, p1, Inr r1), c1)
         \<and> refresh_data cks glob max_retries up now2 fin2 t2 trig2 data_sources c1 d1 p1
             = ((d2, p2, Inr r2), c2)
         \<and> records_changed r2 = 0
         \<and> data_records d2 = data_records d1"
proof -
  have nil: "stored_as_is []" by (simp add: stored_as_is_def)
  from process_first [OF assms(2,3,6) nil, of cks "data_records d" 0 0 "[]"]
  obtain tbl1 added1 tu1 tc1 errs1 where
    pr1: "process_results cks trig1 raw (data_records d, [], 0, 0, [])
            = Inr (tbl1, added1, tu1, tc1, errs1)"
    and i1: "stored_as_is added1"
    and st: "\<forall>x \<in> set raw. error_text x = [] \<longrightarrow> in_step cks (tbl1 (source_key x)) (records x)"
    by blast
  from refresh_results_ok [OF pr1 assms(1) i1, of glob t1]
  obtain p1 where p1: "p1 \<noteq> NoPool"
    and run1: "refresh_results cks glob t1 trig1 raw d p =
           (\<lparr>data_records = tbl1, fetch_audits = fetch_audits d @ added1\<rparr>, p1,
            Inr \<lparr>message = ''Refresh complete'',
                 sources_refreshed = length (filter (\<lambda>r. error_text r = []) raw),
                 records_upserted = tu1, records_changed = tc1, errors = errs1\<rparr>)"
    by blast
  let ?d1 = "\<lparr>data_records = tbl1, fetch_audits = fetch_audits d @ added1\<rparr>"
  have pre2: "\<forall>x \<in> set raw. error_text x = [] \<longrightarrow>
             well_keyed (records x) \<and> in_step cks (tbl1 (source_key x)) (records x)"
    using assms(2) st by simp
  from process_second [OF pre2 assms(7) nil, of 0 0 "[]"]
  obtain added2 tu2 errs2 where
    pr2: "process_results cks trig2 raw (data_records ?d1, [], 0, 0, [])
            = Inr (tbl1, added2, tu2, 0, errs2)"
    and i2: "stored_as_is added2"
    by auto
  from refresh_results_ok [OF pr2 p1 i2, of glob t2]
  obtain p2 where
    run2: "refresh_results cks glob t2 trig2 raw ?d1 p1 =
           (\<lparr>data_records = tbl1, fetch_audits = fetch_audits ?d1 @ added2\<rparr>, p2,
            Inr \<lparr>message = ''Refresh complete'',
                 sources_refreshed = length (filter (\<lambda>r. error_text r = []) raw),
                 records_upserted = tu2, records_changed = 0, errors = errs2\<rparr>)"
    by blast
  show ?thesis
    using run1 run2 assms(4,5) by (simp add: refresh_data_def)
qed

theorem C7_second_refresh_witness:
  "\<exists>d1 p1 r1 d2 p2 r2.
     refresh_data (\<lambda>r. ''digest'') (\<lambda>pat k. True) 3
       (\<lambda>u n. Response (JList [JObj [(''id'', JInt 1), (''title'', JStr ''t'')]]) 5)
       0 (\<lambda>u. 1) 2 ''manual'' [''https://x/posts''] Map.empty
       \<lparr>data_records = (\<lambda>k. []), fetch_audits = []\<rparr> (Reachable [])
       = ((d1, p1, Inr r1), Map.empty)
   \<and> refresh_data (\<lambda>r. ''digest'') (\<lambda>pat k. True) 3
       (\<lambda>u n. Response (JList [JObj [(''id'', JInt 1), (''title'', JStr ''t'')]]) 5)
       10 (\<lambda>u. 11) 12 ''scheduler'' [''https://x/posts''] Map.empty d1 p1
       = ((d2, p2, Inr r2), Map.empty)
   \<and> records_changed r2 = 0 \<and> data_records d2 = data_records d1"
proof -
  let ?up = "\<lambda>(u::string) (n::nat). Response (JList [JObj [(''id'', JInt 1), (''title'', JStr ''t'')]]) 5"
  let ?raw = "[\<lparr>url = ''https://x/posts'', source_key = ''posts'',
                 records = [JObj [(''id'', JInt 1), (''title'', JStr ''t'')]],
                 duration_ms = 5, error = None\<rparr>]"
  have h1: "Reachable [] \<noteq> NoPool" by simp
  have h2: "\<forall>x \<in> set ?raw. error_text x = [] \<longrightarrow> well_keyed (records x)"
    by (simp add: well_keyed_def keyed_def)
  have h3: "distinct (map source_key (filter (\<lambda>x. error_text x = []) ?raw))"
    by simp
  have f1: "fetch_sources 3 ?up 0 (\<lambda>u. 1) [''https://x/posts''] Map.empty
              = (?raw, Map.empty, [''https://x/posts''])"
    by (simp add: fetch_sources_def is_open_def attempt_fetch_def fetch_one_def
        numeral_2_eq_2 source_key_of_def record_success_def)
  have f2: "fetch_sources 3 ?up 10 (\<lambda>u. 11) [''https://x/posts''] Map.empty
              = (?raw, Map.empty, [''https://x/posts''])"
    by (simp add: fetch_sources_def is_open_def attempt_fetch_def fetch_one_def
        numeral_2_eq_2 source_key_of_def record_success_def)
  have s1: "\<forall>x \<in> set ?raw. storable ''manual'' x"
    by (simp add: storable_def fits_def char_len_def continuation_def)
  have s2: "\<forall>x \<in> set ?raw. storable ''scheduler'' x"
    by (simp add: storable_def fits_def char_len_def continuation_def)
  from C7_second_refresh_changes_nothing [OF h1 h2 h3 f1 f2 s1 s2, of "\<lambda>r. ''digest''"
      "\<lambda>pat k. True" 2 "\<lparr>data_records = (\<lambda>k. []), fetch_audits = []\<rparr>" 12]
  show ?thesis by simp
qed

section \<open>Refresh orchestrator: what the conditions exclude\<close>

text \<open>
  An outcome whose error description is the empty string (\<^verbatim>\<open>str(exc)\<close> of an exception
  without message) passes \<^verbatim>\<open>if result["error"]\<close> as if it had succeeded: it is
  reconciled with its empty record list, audited as \<^verbatim>\<open>ok\<close> and counted in
  \<open>sources_refreshed\<close>, with no line in \<open>errors\<close>.
\<close>

lemma empty_error_text_counts_as_refreshed:
  "refresh_results (\<lambda>r. ''digest'') (\<lambda>pat k. True) 0 ''manual''
     [\<lparr>url = ''https://x/posts'', source_key = ''posts'',
        records = [], duration_ms = 0, error = Some []\<rparr>]
     \<lparr>data_records = (\<lambda>k. []), fetch_audits = []\<rparr> (Reachable [])
   = (\<lparr>data_records = (\<lambda>k. []),
       fetch_audits =
         [\<lparr>audit_source_url = ''https://x/posts'', audit_source_key = ''posts'',
           status = ''ok'', audit_records_fetched = 0, audit_records_changed = 0,
           audit_duration_ms = 0, error_detail = None, triggered_by = ''manual''\<rparr>]\<rparr>,
      Reachable [],
      Inr \<lparr>message = ''Refresh complete'', sources_refreshed = 1, records_upserted = 0,
           records_changed = 0, errors = []\<rparr>)"
  by (simp add: refresh_results_def error_text_def upsert_source_def
      delete_stale_def stale_ids_def incoming_ids_def ok_audit_def
      invalidate_pattern_def except_RedisError_def try_redis_def get_redis_def
      with_store_def scan_keys_def fun_eq_iff Let_def db_eval)

text \<open>
  An id that occurs twice in one response is inserted twice (the second occurrence does
  not see the pending first one), and the flush fails on the unique index.
\<close>

lemma repeated_id_is_an_integrity_error:
  "upsert_source (\<lambda>r. ''digest'') ''posts'' ''https://x/posts''
     [JObj [(''id'', JInt 1)], JObj [(''id'', JInt 1)]] (\<lambda>k. [])
   = Inl IntegrityError"
  by (simp add: upsert_source_def upsert_step_def existing_get_def checksum_of_def
      Let_def db_eval)

text \<open>
  An id that is a list cannot be looked up in the \<^verbatim>\<open>existing\<close> dict.
\<close>

lemma unhashable_id_is_a_type_error:
  "upsert_source (\<lambda>r. ''digest'') ''posts'' ''https://x/posts''
     [JObj [(''id'', JList [JInt 1])]] (\<lambda>k. [])
   = Inl TypeError"
  by (simp add: upsert_source_def upsert_step_def existing_get_def checksum_of_def
      Let_def db_eval)

text \<open>
  Two sources whose URLs end in the same segment share a source key, and each deletes
  the rows of the other as stale: with unchanged responses the second refresh inserts
  both records again and reports two changes.
\<close>

lemma shared_source_key_changes_again:
  "map_sum id records_changed
     (snd (snd (refresh_results (\<lambda>r. ''digest'') (\<lambda>pat k. True) 12 ''scheduler''
        [\<lparr>url = ''https://a/posts'', source_key = ''posts'',
           records = [JObj [(''id'', JInt 1)]], duration_ms = 5, error = None\<rparr>,
         \<lparr>url = ''https://b/posts'', source_key = ''posts'',
           records = [JObj [(''id'', JInt 2)]], duration_ms = 5, error = None\<rparr>]
        (fst (refresh_results (\<lambda>r. ''digest'') (\<lambda>pat k. True) 2 ''manual''
           [\<lparr>url = ''https://a/posts'', source_key = ''posts'',
              records = [JObj [(''id'', JInt 1)]], duration_ms = 5, error = None\<rparr>,
            \<lparr>url = ''https://b/posts'', source_key = ''posts'',
              records = [JObj [(''id'', JInt 2)]], duration_ms = 5, error = None\<rparr>]
           \<lparr>data_records = (\<lambda>k. []), fetch_audits = []\<rparr> (Reachable [])))
        (Reachable []))))
   = Inr 2"
  by (simp add: refresh_results_def error_text_def upsert_source_def upsert_step_def
      existing_get_def checksum_of_def delete_stale_def stale_ids_def incoming_ids_def
      sql_in_def ok_audit_def invalidate_pattern_def except_RedisError_def try_redis_def
      get_redis_def with_store_def scan_keys_def Let_def db_eval)

end
